theory Spec2Isabelle
  imports Complex_Main "HOL-Library.Multiset"
begin

section \<open>The constellation background of src/js/script.js\<close>

text \<open>
  The particle field renderer is the function \<open>initializeConstellation\<close> of
  \<open>src/js/script.js\<close>: the classes \<open>Particle\<close> and \<open>ShootingStar\<close>, the closures
  \<open>getDensity\<close>, \<open>createParticles\<close>, \<open>handleResize\<close>, \<open>connectParticles\<close> and
  \<open>animate\<close>, and the timer that spawns shooting stars.

  JavaScript numbers are modelled as real numbers (the spec's data model calls positions
  and velocities real-valued); rounding of IEEE doubles is not part of the model. A
  division whose divisor is zero has no real result (JavaScript yields an infinity or
  NaN): it is the value \<open>None\<close> of \<open>js_div\<close>. Values that JavaScript rounds to integers
  (\<open>Math.floor\<close>, \<open>Math.ceil\<close>, array indices, keys of the grid) are \<open>int\<close> or \<open>nat\<close>.
\<close>

subsection \<open>CONFIG.constellation\<close>

definition particleDensity :: real where "particleDensity = 15000"
definition particleDensityMobile :: real where "particleDensityMobile = 30000"
definition connectionDistance :: real where "connectionDistance = 120"
definition particleSpeedRange :: real where "particleSpeedRange = 0.4"
definition particleMinRadius :: real where "particleMinRadius = 0.5"
definition particleMaxRadius :: real where "particleMaxRadius = 2.0"
definition mouseRadius :: real where "mouseRadius = 180"
definition mouseRepelForce :: real where "mouseRepelForce = 0.08"
definition mouseReturnSpeed :: real where "mouseReturnSpeed = 0.02"
definition shootingStarSpeed :: real where "shootingStarSpeed = 12"
definition shootingStarLength :: real where "shootingStarLength = 80"
definition pulseSpeed :: real where "pulseSpeed = 0.002"

lemmas config_defs =
  particleDensity_def particleDensityMobile_def connectionDistance_def
  particleSpeedRange_def particleMinRadius_def particleMaxRadius_def mouseRadius_def
  mouseRepelForce_def mouseReturnSpeed_def shootingStarSpeed_def shootingStarLength_def
  pulseSpeed_def

subsection \<open>Data\<close>

text \<open>
  \<open>mouse\<close> is the object \<open>{ x, y, active }\<close> written by the mousemove and mouseleave
  listeners. A \<open>particle\<close> has the fields that \<open>Particle.reset\<close> assigns; \<open>ref\<close> is the
  identity of the JavaScript object (which \<open>new\<close> makes fresh), the only field that is
  not a property of the source object.
\<close>

record mouse =
  mouse_x :: real
  mouse_y :: real
  mouse_active :: bool

record particle =
  x :: real
  y :: real
  vx :: real
  vy :: real
  baseVx :: real
  baseVy :: real
  baseRadius :: real
  radius :: real
  pulseOffset :: real
  ref :: nat

subsection \<open>Particle.update\<close>

definition js_div :: "real \<Rightarrow> real \<Rightarrow> real option" where
  "js_div a b = (if b = 0 then None else Some (a / b))"

text \<open>
  The mouse interaction of \<open>update\<close> (the block under \<open>if (mouse.active)\<close>): the
  velocity \<open>(vx, vy)\<close> it leaves. It is the only place of \<open>update\<close> that divides by a
  computed value, \<open>dist\<close>.
\<close>

definition repel :: "mouse \<Rightarrow> particle \<Rightarrow> (real \<times> real) option" where
  "repel m p =
    (if mouse_active m then
       (let dx = x p - mouse_x m;
            dy = y p - mouse_y m;
            dist = sqrt (dx * dx + dy * dy)
        in if dist < mouseRadius \<and> dist > 0 then
             (let force = (1 - dist / mouseRadius) * mouseRepelForce in
              case js_div dx dist of
                None \<Rightarrow> None
              | Some ux \<Rightarrow>
                 (case js_div dy dist of
                    None \<Rightarrow> None
                  | Some uy \<Rightarrow> Some (vx p + ux * force, vy p + uy * force)))
           else Some (vx p, vy p))
     else Some (vx p, vy p))"

text \<open>
  \<open>update W H m fc p\<close> is \<open>p.update()\<close> with \<open>canvas.width = W\<close>, \<open>canvas.height = H\<close>,
  the mouse object \<open>m\<close> and \<open>frameCount = fc\<close>: the breathing pulse, the mouse
  interaction, the return to the base velocity, the move, and the clamp of each axis.
\<close>

definition update :: "real \<Rightarrow> real \<Rightarrow> mouse \<Rightarrow> nat \<Rightarrow> particle \<Rightarrow> particle option" where
  "update W H m fc p =
    (let r = baseRadius p + sin (real fc * pulseSpeed + pulseOffset p) * 0.4
     in case repel m p of
          None \<Rightarrow> None
        | Some (vx1, vy1) \<Rightarrow>
           (let vx2 = vx1 + (baseVx p - vx1) * mouseReturnSpeed;
                vy2 = vy1 + (baseVy p - vy1) * mouseReturnSpeed;
                x1 = x p + vx2;
                y1 = y p + vy2;
                (x2, vx3) =
                  (if x1 < 0 then (0, \<bar>vx2\<bar>)
                   else if x1 > W then (W, - \<bar>vx2\<bar>)
                   else (x1, vx2));
                (y2, vy3) =
                  (if y1 < 0 then (0, \<bar>vy2\<bar>)
                   else if y1 > H then (H, - \<bar>vy2\<bar>)
                   else (y1, vy2))
            in Some (p\<lparr>x := x2, y := y2, vx := vx3, vy := vy3, radius := r\<rparr>)))"

text \<open>The distance from the particle to the pointer, as \<open>update\<close> computes it.\<close>

definition mouse_dist :: "mouse \<Rightarrow> particle \<Rightarrow> real" where
  "mouse_dist m p =
     sqrt ((x p - mouse_x m) * (x p - mouse_x m) + (y p - mouse_y m) * (y p - mouse_y m))"

text \<open>The distance between the current and the base velocity.\<close>

definition vel_dist :: "particle \<Rightarrow> real" where
  "vel_dist p = sqrt ((vx p - baseVx p) * (vx p - baseVx p) + (vy p - baseVy p) * (vy p - baseVy p))"

subsection \<open>ShootingStar\<close>

record star =
  star_x :: real
  star_y :: real
  star_vx :: real
  star_vy :: real
  star_length :: real
  life :: real
  decay :: real
  star_ref :: nat

definition star_update :: "star \<Rightarrow> star" where
  "star_update s =
     s\<lparr>star_x := star_x s + star_vx s, star_y := star_y s + star_vy s, life := life s - decay s\<rparr>"

definition isDead :: "real \<Rightarrow> real \<Rightarrow> star \<Rightarrow> bool" where
  "isDead W H s \<longleftrightarrow> life s \<le> 0 \<or> star_x s > W + 50 \<or> star_y s > H + 50"

subsection \<open>The state of the renderer\<close>

text \<open>
  The variables that the closures of \<open>initializeConstellation\<close> share: the size of the
  canvas, the arrays \<open>particles\<close> and \<open>shootingStars\<close>, and \<open>frameCount\<close>. Two fields
  stand for the environment: \<open>random\<close> is the sequence of values that \<open>Math.random()\<close>
  returns, \<open>draws\<close> the number of calls made so far; \<open>allocated\<close> is the number of
  objects that \<open>new\<close> has made so far, and gives each new object its identity.
\<close>

record renderer =
  canvas_width :: real
  canvas_height :: real
  particles :: "particle list"
  shootingStars :: "star list"
  frameCount :: nat
  random :: "nat \<Rightarrow> real"
  draws :: nat
  allocated :: nat

record window =
  innerWidth :: real
  innerHeight :: real

definition Math_random :: "renderer \<Rightarrow> real \<times> renderer" where
  "Math_random st = (random st (draws st), st\<lparr>draws := draws st + 1\<rparr>)"

definition setCanvasSize :: "window \<Rightarrow> renderer \<Rightarrow> renderer" where
  "setCanvasSize win st = st\<lparr>canvas_width := innerWidth win, canvas_height := innerHeight win\<rparr>"

text \<open>\<open>new Particle()\<close>: the constructor calls \<open>reset\<close>, which draws six random numbers.\<close>

definition new_Particle :: "renderer \<Rightarrow> particle \<times> renderer" where
  "new_Particle st =
    (let (r1, st1) = Math_random st;
         (r2, st2) = Math_random st1;
         (r3, st3) = Math_random st2;
         (r4, st4) = Math_random st3;
         (r5, st5) = Math_random st4;
         (r6, st6) = Math_random st5;
         v1 = r3 * particleSpeedRange - (particleSpeedRange / 2);
         v2 = r4 * particleSpeedRange - (particleSpeedRange / 2);
         b = r5 * (particleMaxRadius - particleMinRadius) + particleMinRadius
     in (\<lparr>x = r1 * canvas_width st, y = r2 * canvas_height st, vx = v1, vy = v2,
          baseVx = v1, baseVy = v2, baseRadius = b, radius = b,
          pulseOffset = r6 * pi * 2, ref = allocated st\<rparr>,
         st6\<lparr>allocated := allocated st + 1\<rparr>))"

text \<open>\<open>new ShootingStar()\<close>: five random numbers.\<close>

definition new_ShootingStar :: "renderer \<Rightarrow> star \<times> renderer" where
  "new_ShootingStar st =
    (let (side, st1) = Math_random st;
         (r2, st2) = Math_random st1;
         (px, py) =
           (if side < 0.5 then (r2 * canvas_width st, - 10)
            else (- 10, r2 * canvas_height st * 0.5));
         (r3, st3) = Math_random st2;
         angle = pi / 6 + r3 * pi / 4;
         (r4, st4) = Math_random st3;
         (r5, st5) = Math_random st4
     in (\<lparr>star_x = px, star_y = py,
          star_vx = cos angle * shootingStarSpeed, star_vy = sin angle * shootingStarSpeed,
          star_length = shootingStarLength + r4 * 40, life = 1.0,
          decay = 0.008 + r5 * 0.008, star_ref = allocated st\<rparr>,
         st5\<lparr>allocated := allocated st + 1\<rparr>))"

subsection \<open>getDensity, createParticles, handleResize\<close>

definition getDensity :: "window \<Rightarrow> real" where
  "getDensity win = (if innerWidth win < 768 then particleDensityMobile else particleDensity)"

text \<open>
  The loop \<open>for (let i = 0; i < particleCount; i++) particles.push(new Particle())\<close>;
  the first argument is the number of iterations left.
\<close>

fun push_particles :: "nat \<Rightarrow> renderer \<Rightarrow> renderer" where
  "push_particles 0 st = st"
| "push_particles (Suc k) st =
     (let (p, st') = new_Particle st
      in push_particles k (st'\<lparr>particles := particles st' @ [p]\<rparr>))"

text \<open>
  \<open>particleCount\<close> is an integer (a \<open>Math.floor\<close>); the loop runs once for every
  natural number below it, which is \<open>nat particleCount\<close> times (none when it is
  negative).
\<close>

definition createParticles :: "window \<Rightarrow> renderer \<Rightarrow> renderer" where
  "createParticles win st =
    (let st0 = st\<lparr>particles := []\<rparr>;
         particleCount = \<lfloor>(canvas_width st0 * canvas_height st0) / getDensity win\<rfloor>
     in push_particles (nat particleCount) st0)"

text \<open>
  The start of \<open>initializeConstellation\<close>, for a page that has the canvas: empty arrays,
  \<open>setCanvasSize()\<close>, \<open>createParticles()\<close>. The size the canvas element had before is
  overwritten and is taken as 0 here.
\<close>

definition initializeConstellation :: "window \<Rightarrow> (nat \<Rightarrow> real) \<Rightarrow> renderer" where
  "initializeConstellation win rnd =
     createParticles win
       (setCanvasSize win
          \<lparr>canvas_width = 0, canvas_height = 0, particles = [], shootingStars = [],
           frameCount = 0, random = rnd, draws = 0, allocated = 0\<rparr>)"

text \<open>
  The function that \<open>debounce\<close> wraps as \<open>handleResize\<close>: what runs once the resize
  events have been quiet for 250 ms. The timer itself is not modelled.
\<close>

definition handleResize :: "window \<Rightarrow> renderer \<Rightarrow> renderer" where
  "handleResize win st = createParticles win (setCanvasSize win st)"

subsection \<open>animate and the shooting star timer\<close>

text \<open>
  One call of \<open>animate\<close>, as far as it changes the state; \<open>hidden\<close> is
  \<open>document.hidden\<close> and \<open>m\<close> the mouse object at that moment. Every particle is
  updated; the dead stars are filtered out first, and \<open>forEach\<close> then calls \<open>update\<close>
  and \<open>draw\<close> on each star that is left.
\<close>

definition animate :: "bool \<Rightarrow> mouse \<Rightarrow> renderer \<Rightarrow> renderer option" where
  "animate hidden m st =
    (if hidden then Some st
     else
       (let fc = frameCount st + 1 in
        case those (map (update (canvas_width st) (canvas_height st) m fc) (particles st)) of
          None \<Rightarrow> None
        | Some ps \<Rightarrow>
           (let live = filter (\<lambda>s. \<not> isDead (canvas_width st) (canvas_height st) s)
                         (shootingStars st)
            in Some (st\<lparr>frameCount := fc, particles := ps,
                        shootingStars := map star_update live\<rparr>))))"

text \<open>The callback of \<open>setInterval\<close>; \<open>Math.random()\<close> is called only when not hidden.\<close>

definition spawnShootingStar :: "bool \<Rightarrow> renderer \<Rightarrow> renderer" where
  "spawnShootingStar hidden st =
    (if hidden then st
     else
       (let (r, st1) = Math_random st in
        if r < 0.7 then
          (let (s, st2) = new_ShootingStar st1
           in st2\<lparr>shootingStars := shootingStars st2 @ [s]\<rparr>)
        else st1))"

text \<open>
  What can happen to the renderer after its start: a frame, a tick of the shooting star
  timer, a (debounced) resize. \<open>run\<close> applies a sequence of them.
\<close>

datatype event = Frame bool mouse | Tick bool | Resize window

fun step :: "event \<Rightarrow> renderer \<Rightarrow> renderer option" where
  "step (Frame hidden m) st = animate hidden m st"
| "step (Tick hidden) st = Some (spawnShootingStar hidden st)"
| "step (Resize win) st = Some (handleResize win st)"

fun run :: "event list \<Rightarrow> renderer \<Rightarrow> renderer option" where
  "run [] st = Some st"
| "run (e # es) st = (case step e st of None \<Rightarrow> None | Some st' \<Rightarrow> run es st')"

subsection \<open>connectParticles\<close>

text \<open>
  A line that \<open>connectParticles\<close> strokes: the indices (in \<open>particles\<close>) of the particles
  \<open>p1\<close> and \<open>p2\<close> it joins, and the opacity \<open>alpha\<close> of its stroke style.
\<close>

record line =
  line_p1 :: nat
  line_p2 :: nat
  line_alpha :: real

text \<open>
  The object \<open>grid\<close>: its keys are integers (not negative for particles on the
  canvas), which \<open>for (const cellKey in grid)\<close> visits in ascending order, so it is
  the list of its entries in that order.
  \<open>grid_push key idx g\<close> is \<open>if (!grid[key]) grid[key] = []; grid[key].push(idx)\<close>.
\<close>

type_synonym grid = "(int \<times> nat list) list"

fun grid_push :: "int \<Rightarrow> nat \<Rightarrow> grid \<Rightarrow> grid" where
  "grid_push key idx [] = [(key, [idx])]"
| "grid_push key idx ((k, cell) # g) =
     (if key = k then (k, cell @ [idx]) # g
      else if key < k then (key, [idx]) # (k, cell) # g
      else (k, cell) # grid_push key idx g)"

definition cellSize :: real where
  "cellSize = connectionDistance"

definition grid_cols :: "real \<Rightarrow> int" where
  "grid_cols W = \<lceil>W / cellSize\<rceil> + 1"

definition grid_rows :: "real \<Rightarrow> int" where
  "grid_rows H = \<lceil>H / cellSize\<rceil> + 1"

definition cell_col :: "particle \<Rightarrow> int" where
  "cell_col p = \<lfloor>x p / cellSize\<rfloor>"

definition cell_row :: "particle \<Rightarrow> int" where
  "cell_row p = \<lfloor>y p / cellSize\<rfloor>"

text \<open>The first loop of \<open>connectParticles\<close>, over \<open>idx\<close>.\<close>

definition build_grid :: "real \<Rightarrow> particle list \<Rightarrow> grid" where
  "build_grid W ps =
     fold (\<lambda>idx g.
        let p = ps ! idx;
            col = cell_col p;
            row = cell_row p;
            key = row * grid_cols W + col
        in grid_push key idx g) [0..<length ps] []"

text \<open>The remainder \<open>%\<close> of JavaScript on integers: it has the sign of the dividend.\<close>

definition js_rem :: "int \<Rightarrow> int \<Rightarrow> int" where
  "js_rem a b = sgn a * (\<bar>a\<bar> mod \<bar>b\<bar>)"

definition neighbors :: "(int \<times> int) list" where
  "neighbors = [(0, 0), (0, 1), (1, - 1), (1, 0), (1, 1)]"

text \<open>The two innermost loops, over \<open>i\<close> and \<open>j\<close>, with the lines they stroke in order.\<close>

definition connect_cells :: "particle list \<Rightarrow> nat list \<Rightarrow> nat list \<Rightarrow> bool \<Rightarrow> line list" where
  "connect_cells ps cellParticles neighborParticles isSameCell =
     concat (map (\<lambda>i.
        let startJ = (if isSameCell then i + 1 else 0) in
        concat (map (\<lambda>j.
           let p1 = ps ! (cellParticles ! i);
               p2 = ps ! (neighborParticles ! j);
               dx = x p1 - x p2;
               dy = y p1 - y p2;
               distSq = dx * dx + dy * dy
           in if distSq < connectionDistance * connectionDistance then
                [\<lparr>line_p1 = cellParticles ! i, line_p2 = neighborParticles ! j,
                  line_alpha = 1 - sqrt distSq / connectionDistance\<rparr>]
              else [])
          [startJ..<length neighborParticles]))
       [0..<length cellParticles])"

text \<open>
  The body of the loop over the neighbor offsets \<open>[dr, dc]\<close>, for the cell at
  \<open>(cellRow, cellCol)\<close> with the particles \<open>cellParticles\<close>: a neighbor outside the
  grid or without particles is skipped (\<open>continue\<close>).
\<close>

definition connect_neighbor ::
  "real \<Rightarrow> real \<Rightarrow> particle list \<Rightarrow> grid \<Rightarrow> int \<Rightarrow> int \<Rightarrow> nat list \<Rightarrow> int \<times> int \<Rightarrow> line list" where
  "connect_neighbor W H ps g cellRow cellCol cellParticles offset =
    (let cols = grid_cols W;
         rows = grid_rows H;
         dr = fst offset;
         dc = snd offset;
         nr = cellRow + dr;
         nc = cellCol + dc
     in if nr < 0 \<or> nr \<ge> rows \<or> nc < 0 \<or> nc \<ge> cols then []
        else
          (let neighborKey = nr * cols + nc in
           case map_of g neighborKey of
             None \<Rightarrow> []
           | Some neighborParticles \<Rightarrow>
               (let isSameCell = (dr = 0 \<and> dc = 0)
                in connect_cells ps cellParticles neighborParticles isSameCell)))"

text \<open>
  The body of the loop over \<open>cellKey\<close>, for one entry of the grid: the row and the
  column of the cell are read back from its key, then the five neighbors are visited.
\<close>

definition connect_cell :: "real \<Rightarrow> real \<Rightarrow> particle list \<Rightarrow> grid \<Rightarrow> int \<times> nat list \<Rightarrow> line list" where
  "connect_cell W H ps g entry =
    (let cols = grid_cols W;
         cellIdx = fst entry;
         cellRow = \<lfloor>real_of_int cellIdx / real_of_int cols\<rfloor>;
         cellCol = js_rem cellIdx cols;
         cellParticles = snd entry
     in concat (map (connect_neighbor W H ps g cellRow cellCol cellParticles) neighbors))"

text \<open>
  \<open>connectParticles W H ps\<close>: the lines stroked for the array \<open>ps\<close> on a canvas of width
  \<open>W\<close> and height \<open>H\<close>, in the order of the calls of \<open>ctx.stroke()\<close>.
\<close>

definition connectParticles :: "real \<Rightarrow> real \<Rightarrow> particle list \<Rightarrow> line list" where
  "connectParticles W H ps =
     (let g = build_grid W ps in concat (map (connect_cell W H ps g) g))"

text \<open>
  The brute-force check that the spec compares with: every pair \<open>i < j\<close> of indices,
  kept when the squared distance is below the squared connection distance.
\<close>

definition distSq :: "particle \<Rightarrow> particle \<Rightarrow> real" where
  "distSq p1 p2 = (x p1 - x p2) * (x p1 - x p2) + (y p1 - y p2) * (y p1 - y p2)"

definition bruteForcePairs :: "particle list \<Rightarrow> (nat \<times> nat) list" where
  "bruteForcePairs ps =
     concat (map (\<lambda>i.
        concat (map (\<lambda>j.
           if distSq (ps ! i) (ps ! j) < connectionDistance * connectionDistance
           then [(i, j)] else [])
          [i + 1..<length ps]))
       [0..<length ps])"

text \<open>The two particles of a line as an unordered pair: smaller index first.\<close>

definition line_pair :: "line \<Rightarrow> nat \<times> nat" where
  "line_pair l = (min (line_p1 l) (line_p2 l), max (line_p1 l) (line_p2 l))"

text \<open>All particles lie on the canvas, as \<open>reset\<close> and \<open>update\<close> leave them.\<close>

definition in_bounds :: "real \<Rightarrow> real \<Rightarrow> particle list \<Rightarrow> bool" where
  "in_bounds W H ps \<longleftrightarrow> (\<forall>p \<in> set ps. 0 \<le> x p \<and> x p \<le> W \<and> 0 \<le> y p \<and> y p \<le> H)"

subsection \<open>Sample inputs\<close>

text \<open>
  The mouse object as the source creates it, a pointer in the middle of an 800 by 600
  canvas, a particle one tenth of a pixel from the left edge that drifts to the left
  (as \<open>reset\<close> can leave it), and a particle in the middle that moves faster than its
  base velocity.
\<close>

definition mouse_initial :: mouse where
  "mouse_initial = \<lparr>mouse_x = - 1000, mouse_y = - 1000, mouse_active = False\<rparr>"

definition mouse_centre :: mouse where
  "mouse_centre = \<lparr>mouse_x = 400, mouse_y = 300, mouse_active = True\<rparr>"

definition particle_at_edge :: particle where
  "particle_at_edge =
     \<lparr>x = 1 / 10, y = 300, vx = - (1 / 5), vy = 0, baseVx = - (1 / 5), baseVy = 0,
      baseRadius = 1, radius = 1, pulseOffset = 0, ref = 0\<rparr>"

definition particle_at_centre :: particle where
  "particle_at_centre =
     \<lparr>x = 400, y = 300, vx = 1 / 10, vy = 0, baseVx = 0, baseVy = 0,
      baseRadius = 1, radius = 1, pulseOffset = 0, ref = 1\<rparr>"

definition particle_near_centre :: particle where
  "particle_near_centre =
     \<lparr>x = 450, y = 300, vx = 0, vy = 0, baseVx = 0, baseVy = 0,
      baseRadius = 1, radius = 1, pulseOffset = 0, ref = 2\<rparr>"

definition window_800_600 :: window where
  "window_800_600 = \<lparr>innerWidth = 800, innerHeight = 600\<rparr>"

definition window_400_300 :: window where
  "window_400_300 = \<lparr>innerWidth = 400, innerHeight = 300\<rparr>"

text \<open>A random source that always returns one half.\<close>

definition random_half :: "nat \<Rightarrow> real" where
  "random_half k = 1 / 2"

text \<open>A renderer with an 800 by 600 canvas and nothing on it.\<close>

definition renderer_800_600 :: renderer where
  "renderer_800_600 =
     \<lparr>canvas_width = 800, canvas_height = 600, particles = [], shootingStars = [],
      frameCount = 0, random = random_half, draws = 0, allocated = 0\<rparr>"

text \<open>Three particles at rest on an 800 by 600 canvas: two 50 apart, one far away.\<close>

definition still_particle :: "real \<Rightarrow> real \<Rightarrow> nat \<Rightarrow> particle" where
  "still_particle a b r =
     \<lparr>x = a, y = b, vx = 0, vy = 0, baseVx = 0, baseVy = 0,
      baseRadius = 1, radius = 1, pulseOffset = 0, ref = r\<rparr>"

definition sample_particles :: "particle list" where
  "sample_particles =
     [still_particle 100 100 0, still_particle 150 100 1, still_particle 700 500 2]"

lemmas sample_defs =
  mouse_initial_def mouse_centre_def particle_at_edge_def particle_at_centre_def
  particle_near_centre_def

subsection \<open>Notions for the proofs about connectParticles\<close>

text \<open>The key of the cell of a particle, as the first loop computes it.\<close>

definition cell_key :: "real \<Rightarrow> particle \<Rightarrow> int" where
  "cell_key W p = cell_row p * grid_cols W + cell_col p"

text \<open>The indices below \<open>m\<close> of the particles whose cell has the key \<open>k\<close>, in order.\<close>

definition cell_members :: "real \<Rightarrow> particle list \<Rightarrow> int \<Rightarrow> nat \<Rightarrow> nat list" where
  "cell_members W ps k m = filter (\<lambda>i. cell_key W (ps ! i) = k) [0..<m]"

text \<open>The test \<open>distSq < maxDistSq\<close> for the particles with indices \<open>a\<close> and \<open>b\<close>.\<close>

definition close :: "particle list \<Rightarrow> nat \<Rightarrow> nat \<Rightarrow> bool" where
  "close ps a b \<longleftrightarrow> distSq (ps ! a) (ps ! b) < connectionDistance * connectionDistance"

text \<open>The line stroked from the particle \<open>a\<close> to the particle \<open>b\<close>.\<close>

definition mk_line :: "particle list \<Rightarrow> nat \<Rightarrow> nat \<Rightarrow> line" where
  "mk_line ps a b =
     \<lparr>line_p1 = a, line_p2 = b,
      line_alpha = 1 - sqrt (distSq (ps ! a) (ps ! b)) / connectionDistance\<rparr>"

text \<open>
  The cell of \<open>b\<close> is the cell of \<open>a\<close> and \<open>a\<close> comes first, or it is the right,
  bottom-left, bottom or bottom-right neighbor of the cell of \<open>a\<close>.
\<close>

definition forward :: "particle list \<Rightarrow> nat \<Rightarrow> nat \<Rightarrow> bool" where
  "forward ps a b \<longleftrightarrow>
     (let dr = cell_row (ps ! b) - cell_row (ps ! a);
          dc = cell_col (ps ! b) - cell_col (ps ! a)
      in (dr = 0 \<and> dc = 0 \<and> a < b) \<or> (dr = 0 \<and> dc = 1) \<or> (dr = 1 \<and> dc = - 1) \<or>
         (dr = 1 \<and> dc = 0) \<or> (dr = 1 \<and> dc = 1))"

text \<open>The two particles of a line, in the order of the call.\<close>

definition line_ends :: "line \<Rightarrow> nat \<times> nat" where
  "line_ends l = (line_p1 l, line_p2 l)"

subsection \<open>Invariants of the state\<close>

text \<open>\<open>Math.random()\<close> returns a number in \<open>[0, 1)\<close>.\<close>

definition random_ok :: "(nat \<Rightarrow> real) \<Rightarrow> bool" where
  "random_ok rnd \<longleftrightarrow> (\<forall>k. 0 \<le> rnd k \<and> rnd k < 1)"

text \<open>
  Every object of the two arrays was made by \<open>new\<close> before, and no star is in
  \<open>shootingStars\<close> twice.
\<close>

definition wellformed :: "renderer \<Rightarrow> bool" where
  "wellformed st \<longleftrightarrow>
     (\<forall>p \<in> set (particles st). ref p < allocated st) \<and>
     (\<forall>s \<in> set (shootingStars st). star_ref s < allocated st) \<and>
     distinct (map star_ref (shootingStars st))"

text \<open>A particle on the canvas whose base radius is in the configured range.\<close>

definition particle_ok :: "real \<Rightarrow> real \<Rightarrow> particle \<Rightarrow> bool" where
  "particle_ok W H p \<longleftrightarrow>
     0 \<le> x p \<and> x p \<le> W \<and> 0 \<le> y p \<and> y p \<le> H \<and>
     particleMinRadius \<le> baseRadius p \<and> baseRadius p \<le> particleMaxRadius"

text \<open>
  A star as the constructor and \<open>update\<close> leave it: it decays, and it moves right
  and down from at most 10 outside the top or the left edge.
\<close>

definition star_ok :: "star \<Rightarrow> bool" where
  "star_ok s \<longleftrightarrow>
     0 < decay s \<and> 0 < star_vx s \<and> 0 < star_vy s \<and> - 10 \<le> star_x s \<and> - 10 \<le> star_y s"

text \<open>The window never has a negative size.\<close>

definition event_ok :: "event \<Rightarrow> bool" where
  "event_ok e \<longleftrightarrow>
     (case e of Resize win \<Rightarrow> 0 \<le> innerWidth win \<and> 0 \<le> innerHeight win | _ \<Rightarrow> True)"

text \<open>The canvas has no negative size, and all particles and stars are as above.\<close>

definition on_canvas :: "renderer \<Rightarrow> bool" where
  "on_canvas st \<longleftrightarrow>
     0 \<le> canvas_width st \<and> 0 \<le> canvas_height st \<and>
     (\<forall>p \<in> set (particles st). particle_ok (canvas_width st) (canvas_height st) p) \<and>
     (\<forall>s \<in> set (shootingStars st). star_ok s)"

section \<open>Particle.update\<close>

lemma repel_total: "\<exists>v. repel m p = Some v"
  by (auto simp: repel_def js_div_def Let_def)

lemma update_total: "\<exists>p'. update W H m fc p = Some p'"
proof -
  obtain v1 v2 where "repel m p = Some (v1, v2)"
    using repel_total[of m p] by auto
  then show ?thesis
    by (simp add: update_def Let_def split: prod.splits)
qed

lemma update_fields:
  assumes "update W H m fc p = Some p'"
  shows "radius p' = baseRadius p + sin (real fc * pulseSpeed + pulseOffset p) * 0.4"
    and "baseRadius p' = baseRadius p" and "pulseOffset p' = pulseOffset p"
    and "baseVx p' = baseVx p" and "baseVy p' = baseVy p" and "ref p' = ref p"
  using assms
  by (auto simp: update_def Let_def split: option.splits prod.splits if_splits)

lemma update_position:
  assumes "0 \<le> W" "0 \<le> H" "update W H m fc p = Some p'"
  shows "0 \<le> x p' \<and> x p' \<le> W \<and> 0 \<le> y p' \<and> y p' \<le> H"
  using assms
  by (auto simp: update_def Let_def split: option.splits prod.splits if_splits)

text \<open>
  C2. Whatever the particle was, after \<open>update\<close> its position lies in \<open>[0, W] \<times> [0, H]\<close>
  (for a canvas whose width and height are not negative). With \<open>x1\<close> the position after
  the move: below 0 it becomes 0 and the velocity its absolute value; above \<open>W\<close> it
  becomes \<open>W\<close> and the velocity minus its absolute value; otherwise both are kept. A
  particle that was on the canvas before comes back with a velocity that is not 0. The
  same holds for \<open>y\<close> with \<open>H\<close>, independently.
\<close>

theorem update_clamps_position:
  assumes "0 \<le> W" "0 \<le> H"
  shows "\<exists>v1 v2 p'. repel m p = Some (v1, v2) \<and> update W H m fc p = Some p' \<and>
     0 \<le> x p' \<and> x p' \<le> W \<and> 0 \<le> y p' \<and> y p' \<le> H \<and>
     (let vx2 = v1 + (baseVx p - v1) * mouseReturnSpeed; x1 = x p + vx2 in
        (x1 < 0 \<longrightarrow> x p' = 0 \<and> vx p' = \<bar>vx2\<bar> \<and> 0 \<le> vx p') \<and>
        (x1 < 0 \<and> 0 \<le> x p \<longrightarrow> 0 < vx p') \<and>
        (W < x1 \<longrightarrow> x p' = W \<and> vx p' = - \<bar>vx2\<bar> \<and> vx p' \<le> 0) \<and>
        (W < x1 \<and> x p \<le> W \<longrightarrow> vx p' < 0) \<and>
        (0 \<le> x1 \<and> x1 \<le> W \<longrightarrow> x p' = x1 \<and> vx p' = vx2)) \<and>
     (let vy2 = v2 + (baseVy p - v2) * mouseReturnSpeed; y1 = y p + vy2 in
        (y1 < 0 \<longrightarrow> y p' = 0 \<and> vy p' = \<bar>vy2\<bar> \<and> 0 \<le> vy p') \<and>
        (y1 < 0 \<and> 0 \<le> y p \<longrightarrow> 0 < vy p') \<and>
        (H < y1 \<longrightarrow> y p' = H \<and> vy p' = - \<bar>vy2\<bar> \<and> vy p' \<le> 0) \<and>
        (H < y1 \<and> y p \<le> H \<longrightarrow> vy p' < 0) \<and>
        (0 \<le> y1 \<and> y1 \<le> H \<longrightarrow> y p' = y1 \<and> vy p' = vy2))"
proof -
  obtain v1 v2 where "repel m p = Some (v1, v2)"
    using repel_total[of m p] by auto
  then show ?thesis
    using assms by (auto simp: update_def Let_def)
qed

theorem update_clamps_position_witness:
  "(0::real) \<le> 800 \<and> (0::real) \<le> 600 \<and>
   (\<exists>p'. update 800 600 mouse_initial 1 particle_at_edge = Some p' \<and>
         x p' = 0 \<and> vx p' = 1 / 5 \<and> y p' = 300 \<and> vy p' = 0)"
proof -
  have r: "repel mouse_initial particle_at_edge = Some (- (1 / 5), 0)"
    by (simp add: repel_def sample_defs)
  obtain v1 v2 p' where
    h: "repel mouse_initial particle_at_edge = Some (v1, v2)"
       "update 800 600 mouse_initial 1 particle_at_edge = Some p'"
       "let vx2 = v1 + (baseVx particle_at_edge - v1) * mouseReturnSpeed;
            x1 = x particle_at_edge + vx2 in
          (x1 < 0 \<longrightarrow> x p' = 0 \<and> vx p' = \<bar>vx2\<bar> \<and> 0 \<le> vx p') \<and>
          (x1 < 0 \<and> 0 \<le> x particle_at_edge \<longrightarrow> 0 < vx p') \<and>
          (800 < x1 \<longrightarrow> x p' = 800 \<and> vx p' = - \<bar>vx2\<bar> \<and> vx p' \<le> 0) \<and>
          (800 < x1 \<and> x particle_at_edge \<le> 800 \<longrightarrow> vx p' < 0) \<and>
          (0 \<le> x1 \<and> x1 \<le> 800 \<longrightarrow> x p' = x1 \<and> vx p' = vx2)"
       "let vy2 = v2 + (baseVy particle_at_edge - v2) * mouseReturnSpeed;
            y1 = y particle_at_edge + vy2 in
          (y1 < 0 \<longrightarrow> y p' = 0 \<and> vy p' = \<bar>vy2\<bar> \<and> 0 \<le> vy p') \<and>
          (y1 < 0 \<and> 0 \<le> y particle_at_edge \<longrightarrow> 0 < vy p') \<and>
          (600 < y1 \<longrightarrow> y p' = 600 \<and> vy p' = - \<bar>vy2\<bar> \<and> vy p' \<le> 0) \<and>
          (600 < y1 \<and> y particle_at_edge \<le> 600 \<longrightarrow> vy p' < 0) \<and>
          (0 \<le> y1 \<and> y1 \<le> 600 \<longrightarrow> y p' = y1 \<and> vy p' = vy2)"
    using update_clamps_position[of 800 600 mouse_initial particle_at_edge 1] by auto
  from h(1) r have v: "v1 = - (1 / 5)" "v2 = 0" by simp_all
  from h(3) v have "x p' = 0 \<and> vx p' = 1 / 5"
    by (simp add: Let_def particle_at_edge_def mouseReturnSpeed_def)
  moreover from h(4) v have "y p' = 300 \<and> vy p' = 0"
    by (simp add: Let_def particle_at_edge_def mouseReturnSpeed_def)
  ultimately show ?thesis using h(2) by simp
qed

text \<open>
  C3, as the code has it. With the pointer inactive, in a frame in which the particle
  does not leave the canvas, the distance between the velocity and the base velocity
  is multiplied by \<open>1 - mouseReturnSpeed\<close>: it does not grow, and it shrinks unless it
  is 0. (A frame that clamps the particle at an edge forces the sign of the velocity
  and is not covered.)
\<close>

theorem relax_toward_base:
  assumes "\<not> mouse_active m"
    and "0 \<le> x p + (vx p + (baseVx p - vx p) * mouseReturnSpeed)"
    and "x p + (vx p + (baseVx p - vx p) * mouseReturnSpeed) \<le> W"
    and "0 \<le> y p + (vy p + (baseVy p - vy p) * mouseReturnSpeed)"
    and "y p + (vy p + (baseVy p - vy p) * mouseReturnSpeed) \<le> H"
  shows "\<exists>p'. update W H m fc p = Some p' \<and> baseVx p' = baseVx p \<and> baseVy p' = baseVy p \<and>
     vel_dist p' = (1 - mouseReturnSpeed) * vel_dist p \<and>
     vel_dist p' \<le> vel_dist p \<and> (vel_dist p \<noteq> 0 \<longrightarrow> vel_dist p' < vel_dist p)"
proof -
  let ?c = "1 - mouseReturnSpeed"
  have c: "0 \<le> ?c" "?c < 1"
    by (simp_all add: mouseReturnSpeed_def)
  let ?p = "p\<lparr>x := x p + (vx p + (baseVx p - vx p) * mouseReturnSpeed),
              y := y p + (vy p + (baseVy p - vy p) * mouseReturnSpeed),
              vx := vx p + (baseVx p - vx p) * mouseReturnSpeed,
              vy := vy p + (baseVy p - vy p) * mouseReturnSpeed,
              radius := baseRadius p + sin (real fc * pulseSpeed + pulseOffset p) * 0.4\<rparr>"
  have u: "update W H m fc p = Some ?p"
    using assms by (simp add: update_def repel_def Let_def)
  have "(vx ?p - baseVx ?p) * (vx ?p - baseVx ?p) + (vy ?p - baseVy ?p) * (vy ?p - baseVy ?p)
      = (?c * ?c) * ((vx p - baseVx p) * (vx p - baseVx p) + (vy p - baseVy p) * (vy p - baseVy p))"
    by (simp add: algebra_simps)
  then have "vel_dist ?p = sqrt (?c * ?c) * vel_dist p"
    unfolding vel_dist_def by (simp only: real_sqrt_mult)
  then have d: "vel_dist ?p = ?c * vel_dist p"
    using c by simp
  have nn: "0 \<le> vel_dist p"
    by (simp add: vel_dist_def)
  have le: "?c * vel_dist p \<le> vel_dist p"
    using c nn by (metis less_eq_real_def mult_left_le_one_le mult.commute)
  have lt: "vel_dist p \<noteq> 0 \<Longrightarrow> ?c * vel_dist p < vel_dist p"
    using c nn by (smt (verit) mult_less_cancel_right2)
  show ?thesis
    using u d le lt by auto
qed

theorem relax_toward_base_witness:
  "\<not> mouse_active mouse_initial \<and> vel_dist particle_at_centre \<noteq> 0 \<and>
   (\<exists>p'. update 800 600 mouse_initial 1 particle_at_centre = Some p' \<and>
         vel_dist p' = (49 / 50) * vel_dist particle_at_centre \<and>
         vel_dist p' < vel_dist particle_at_centre)"
proof -
  have a: "\<not> mouse_active mouse_initial"
    by (simp add: mouse_initial_def)
  have nz: "vel_dist particle_at_centre \<noteq> 0"
    by (simp add: vel_dist_def particle_at_centre_def)
  have "\<exists>p'. update 800 600 mouse_initial 1 particle_at_centre = Some p' \<and>
     baseVx p' = baseVx particle_at_centre \<and> baseVy p' = baseVy particle_at_centre \<and>
     vel_dist p' = (1 - mouseReturnSpeed) * vel_dist particle_at_centre \<and>
     vel_dist p' \<le> vel_dist particle_at_centre \<and>
     (vel_dist particle_at_centre \<noteq> 0 \<longrightarrow> vel_dist p' < vel_dist particle_at_centre)"
    by (rule relax_toward_base[OF a])
      (simp_all add: particle_at_centre_def mouseReturnSpeed_def)
  then show ?thesis
    using a nz by (auto simp: mouseReturnSpeed_def)
qed

text \<open>
  C3 as the claim states it fails where the clamp forces the sign of the velocity: the
  particle at the left edge starts with its base velocity (distance 0), leaves the
  canvas in the first frame with the pointer inactive, and comes back with the
  opposite velocity, at distance 2/5 from its base velocity.
\<close>

theorem relax_not_monotone_at_edge:
  "\<not> mouse_active mouse_initial \<and> vel_dist particle_at_edge = 0 \<and>
   map_option vel_dist (update 800 600 mouse_initial 1 particle_at_edge) = Some (2 / 5)"
proof -
  have "sqrt (4 / 25) = 2 / 5"
    by (rule real_sqrt_unique) (simp_all add: power2_eq_square)
  then show ?thesis
    by (simp add: update_def repel_def Let_def vel_dist_def sample_defs mouseReturnSpeed_def)
qed

lemma new_Particle_fields:
  "x (fst (new_Particle st)) = random st (draws st) * canvas_width st"
  "y (fst (new_Particle st)) = random st (draws st + 1) * canvas_height st"
  "baseRadius (fst (new_Particle st)) =
     random st (draws st + 4) * (particleMaxRadius - particleMinRadius) + particleMinRadius"
  "radius (fst (new_Particle st)) = baseRadius (fst (new_Particle st))"
  by (simp_all add: new_Particle_def Math_random_def Let_def eval_nat_numeral)

lemma random_times:
  assumes "random_ok rnd" "0 \<le> w"
  shows "0 \<le> rnd k * w" "rnd k * w \<le> w"
proof -
  have r: "0 \<le> rnd k" "rnd k \<le> 1"
    using assms(1) by (simp_all add: random_ok_def less_imp_le)
  show "0 \<le> rnd k * w" using r(1) assms(2) by simp
  show "rnd k * w \<le> w" using mult_right_mono[OF r(2) assms(2)] by simp
qed

text \<open>
  C8. \<open>reset\<close> draws the base radius from the configured range (for a random number in
  \<open>[0, 1)\<close>) and starts the radius there. \<open>update\<close> sets the radius to
  \<open>baseRadius + 0.4 * sin (frameCount * pulseSpeed + pulseOffset)\<close>, which differs from
  the base radius by at most 0.4, and leaves \<open>baseRadius\<close> and \<open>pulseOffset\<close> as they
  are; so for a base radius in the configured range the radius is positive after every
  update.
\<close>

theorem breathing_radius:
  "(random_ok (random st) \<longrightarrow>
      particleMinRadius \<le> baseRadius (fst (new_Particle st)) \<and>
      baseRadius (fst (new_Particle st)) \<le> particleMaxRadius \<and>
      radius (fst (new_Particle st)) = baseRadius (fst (new_Particle st))) \<and>
   (particleMinRadius \<le> baseRadius p \<and> baseRadius p \<le> particleMaxRadius \<longrightarrow>
      (\<exists>p'. update W H m fc p = Some p' \<and>
         radius p' = baseRadius p + 0.4 * sin (real fc * pulseSpeed + pulseOffset p) \<and>
         \<bar>radius p' - baseRadius p\<bar> \<le> 0.4 \<and> 0 < radius p' \<and>
         baseRadius p' = baseRadius p \<and> pulseOffset p' = pulseOffset p))"
proof (intro conjI impI)
  assume r: "random_ok (random st)"
  have "(0::real) \<le> particleMaxRadius - particleMinRadius"
    by (simp add: particleMaxRadius_def particleMinRadius_def)
  note c = random_times[OF r this, of "draws st + 4"]
  show "particleMinRadius \<le> baseRadius (fst (new_Particle st))"
    "baseRadius (fst (new_Particle st)) \<le> particleMaxRadius"
    unfolding new_Particle_fields using c by linarith+
  show "radius (fst (new_Particle st)) = baseRadius (fst (new_Particle st))"
    by (rule new_Particle_fields)
next
  assume b: "particleMinRadius \<le> baseRadius p \<and> baseRadius p \<le> particleMaxRadius"
  obtain p' where u: "update W H m fc p = Some p'"
    using update_total by blast
  let ?s = "sin (real fc * pulseSpeed + pulseOffset p)"
  have s: "- 1 \<le> ?s" "?s \<le> 1"
    by simp_all
  have "\<bar>?s * 0.4\<bar> \<le> 0.4"
    using s by linarith
  moreover have "0 < baseRadius p + ?s * 0.4"
    using s b unfolding particleMinRadius_def by linarith
  ultimately show "\<exists>p'. update W H m fc p = Some p' \<and>
         radius p' = baseRadius p + 0.4 * sin (real fc * pulseSpeed + pulseOffset p) \<and>
         \<bar>radius p' - baseRadius p\<bar> \<le> 0.4 \<and> 0 < radius p' \<and>
         baseRadius p' = baseRadius p \<and> pulseOffset p' = pulseOffset p"
    using u update_fields[OF u] by auto
qed

theorem breathing_radius_witness:
  "random_ok (random renderer_800_600) \<and>
   particleMinRadius \<le> baseRadius (fst (new_Particle renderer_800_600)) \<and>
   baseRadius (fst (new_Particle renderer_800_600)) \<le> particleMaxRadius \<and>
   baseRadius (fst (new_Particle renderer_800_600)) = 5 / 4 \<and>
   particleMinRadius \<le> baseRadius particle_at_edge \<and>
   baseRadius particle_at_edge \<le> particleMaxRadius \<and>
   (\<exists>p'. update 800 600 mouse_initial 7 particle_at_edge = Some p' \<and>
         radius p' = 1 + 0.4 * sin (7 * pulseSpeed) \<and> 0 < radius p')"
proof -
  have a: "particleMinRadius \<le> baseRadius particle_at_edge"
    and b: "baseRadius particle_at_edge \<le> particleMaxRadius"
    by (simp_all add: particle_at_edge_def particleMinRadius_def particleMaxRadius_def)
  have r: "random_ok (random renderer_800_600)"
    by (simp add: random_ok_def random_half_def renderer_800_600_def)
  note t = breathing_radius[of renderer_800_600 particle_at_edge 800 600 mouse_initial 7]
  have n: "baseRadius (fst (new_Particle renderer_800_600)) = 5 / 4"
    by (simp add: new_Particle_fields random_half_def particleMaxRadius_def
        particleMinRadius_def renderer_800_600_def)
  have m: "particleMinRadius \<le> baseRadius (fst (new_Particle renderer_800_600))"
    "baseRadius (fst (new_Particle renderer_800_600)) \<le> particleMaxRadius"
    using t r by blast+
  have "\<exists>p'. update 800 600 mouse_initial 7 particle_at_edge = Some p' \<and>
         radius p' = 1 + 0.4 * sin (7 * pulseSpeed) \<and> 0 < radius p'"
    using t a b by (auto simp: particle_at_edge_def)
  then show ?thesis
    using r n m a b by (intro conjI) assumption+
qed

text \<open>
  C10. The mouse interaction never divides by zero (it always yields a velocity).
  Unless the pointer is active and the distance to it is above 0 and below
  \<open>mouseRadius\<close>, it leaves the velocity as it is; in that range it adds the force
  along \<open>(dx / dist, dy / dist)\<close>. For a particle exactly at the pointer the velocity
  is left as it is, and \<open>update\<close> returns what it returns with the pointer inactive.
\<close>

theorem repel_guard:
  "(\<exists>v. repel m p = Some v) \<and>
   (\<not> (mouse_active m \<and> 0 < mouse_dist m p \<and> mouse_dist m p < mouseRadius) \<longrightarrow>
      repel m p = Some (vx p, vy p)) \<and>
   (mouse_active m \<and> 0 < mouse_dist m p \<and> mouse_dist m p < mouseRadius \<longrightarrow>
      repel m p = Some
        (vx p + (x p - mouse_x m) / mouse_dist m p
                  * ((1 - mouse_dist m p / mouseRadius) * mouseRepelForce),
         vy p + (y p - mouse_y m) / mouse_dist m p
                  * ((1 - mouse_dist m p / mouseRadius) * mouseRepelForce))) \<and>
   (x p = mouse_x m \<and> y p = mouse_y m \<longrightarrow>
      repel m p = Some (vx p, vy p) \<and>
      update W H m fc p = update W H (m\<lparr>mouse_active := False\<rparr>) fc p)"
  by (auto simp: repel_def update_def mouse_dist_def js_div_def Let_def)

lemma sqrt2500: "sqrt 2500 = 50"
  by (rule real_sqrt_unique) (simp_all add: power2_eq_square)

theorem repel_guard_witness:
  "x particle_at_centre = mouse_x mouse_centre \<and> y particle_at_centre = mouse_y mouse_centre \<and>
   repel mouse_centre particle_at_centre = Some (1 / 10, 0) \<and>
   update 800 600 mouse_centre 1 particle_at_centre
     = update 800 600 (mouse_centre\<lparr>mouse_active := False\<rparr>) 1 particle_at_centre \<and>
   mouse_active mouse_centre \<and> mouse_dist mouse_centre particle_near_centre = 50 \<and>
   repel mouse_centre particle_near_centre = Some (13 / 225, 0)"
proof -
  have d: "mouse_dist mouse_centre particle_near_centre = 50"
    by (simp add: mouse_dist_def sample_defs sqrt2500)
  have e: "x particle_at_centre = mouse_x mouse_centre \<and> y particle_at_centre = mouse_y mouse_centre"
    by (simp add: sample_defs)
  have a: "mouse_active mouse_centre" by (simp add: sample_defs)
  from repel_guard[of mouse_centre particle_at_centre 800 600 1] e
  have 1: "repel mouse_centre particle_at_centre = Some (1 / 10, 0) \<and>
   update 800 600 mouse_centre 1 particle_at_centre
     = update 800 600 (mouse_centre\<lparr>mouse_active := False\<rparr>) 1 particle_at_centre"
    by (simp add: particle_at_centre_def)
  from repel_guard[of mouse_centre particle_near_centre 800 600 1] a d
  have 2: "repel mouse_centre particle_near_centre = Some (13 / 225, 0)"
    by (simp add: sample_defs mouseRadius_def mouseRepelForce_def)
  show ?thesis using 1 2 d e a by simp
qed

section \<open>Creating particles\<close>

lemma Math_random_simps [simp]:
  "fst (Math_random st) = random st (draws st)"
  "snd (Math_random st) = st\<lparr>draws := draws st + 1\<rparr>"
  by (simp_all add: Math_random_def)

lemma new_Particle_state:
  "snd (new_Particle st) = st\<lparr>draws := draws st + 6, allocated := allocated st + 1\<rparr>"
  by (simp add: new_Particle_def Math_random_def Let_def)

lemma new_Particle_ref: "ref (fst (new_Particle st)) = allocated st"
  by (simp add: new_Particle_def Math_random_def Let_def)

lemma push_particles_state:
  "push_particles k st =
     st\<lparr>particles := particles (push_particles k st), draws := draws st + 6 * k,
        allocated := allocated st + k\<rparr>"
proof (induction k arbitrary: st)
  case 0 show ?case by simp
next
  case (Suc k)
  show ?case
    apply (simp add: split_beta Let_def)
    apply (subst Suc.IH)
    apply (simp add: new_Particle_state)
    done
qed

lemma length_push_particles:
  "length (particles (push_particles k st)) = length (particles st) + k"
  by (induction k arbitrary: st) (simp_all add: split_beta Let_def new_Particle_state)

lemma refs_push_particles:
  "map ref (particles (push_particles k st)) = map ref (particles st) @ [allocated st..<allocated st + k]"
proof (induction k arbitrary: st)
  case 0 show ?case by simp
next
  case (Suc k)
  show ?case
    by (simp add: split_beta Let_def Suc.IH new_Particle_state new_Particle_ref upt_rec[of "allocated st"])
qed


lemma createParticles_state:
  "createParticles win st =
     st\<lparr>particles := particles (createParticles win st),
        draws := draws st + 6 * nat \<lfloor>canvas_width st * canvas_height st / getDensity win\<rfloor>,
        allocated := allocated st + nat \<lfloor>canvas_width st * canvas_height st / getDensity win\<rfloor>\<rparr>"
  unfolding createParticles_def Let_def
  by (subst push_particles_state) simp

lemma createParticles_refs:
  "map ref (particles (createParticles win st)) =
     [allocated st..<allocated st + nat \<lfloor>canvas_width st * canvas_height st / getDensity win\<rfloor>]"
  by (simp add: createParticles_def Let_def refs_push_particles)

lemma createParticles_fields [simp]:
  "canvas_width (createParticles win st) = canvas_width st"
  "canvas_height (createParticles win st) = canvas_height st"
  "shootingStars (createParticles win st) = shootingStars st"
  "frameCount (createParticles win st) = frameCount st"
  "random (createParticles win st) = random st"
  "allocated (createParticles win st) =
     allocated st + nat \<lfloor>canvas_width st * canvas_height st / getDensity win\<rfloor>"
  by (subst createParticles_state, simp)+

lemma length_createParticles:
  "length (particles (createParticles win st)) =
     nat \<lfloor>canvas_width st * canvas_height st / getDensity win\<rfloor>"
  using arg_cong[OF createParticles_refs[of win st], of length] by simp

lemma getDensity_pos: "0 < getDensity win"
  by (simp add: getDensity_def particleDensity_def particleDensityMobile_def)

text \<open>
  C4. Initialization leaves exactly \<open>floor (W * H / D)\<close> particles, with \<open>W\<close> and \<open>H\<close>
  the size of the window and \<open>D\<close> the density that \<open>getDensity\<close> selects by the width
  (30000 below 768, else 15000): the loop runs \<open>nat (floor (W * H / D))\<close> times, which
  is that floor when the area is not negative. The count depends on nothing else (not
  on the random source), and it is 0 when the area is 0.
\<close>

theorem particle_count:
  "length (particles (initializeConstellation win rnd))
     = nat \<lfloor>innerWidth win * innerHeight win / getDensity win\<rfloor> \<and>
   getDensity win = (if innerWidth win < 768 then 30000 else 15000) \<and>
   (0 \<le> innerWidth win * innerHeight win \<longrightarrow>
      int (length (particles (initializeConstellation win rnd)))
        = \<lfloor>innerWidth win * innerHeight win / getDensity win\<rfloor>) \<and>
   (innerWidth win * innerHeight win = 0 \<longrightarrow> particles (initializeConstellation win rnd) = [])"
proof -
  have len: "length (particles (initializeConstellation win rnd))
     = nat \<lfloor>innerWidth win * innerHeight win / getDensity win\<rfloor>"
    by (simp add: initializeConstellation_def length_createParticles setCanvasSize_def)
  have d: "getDensity win = (if innerWidth win < 768 then 30000 else 15000)"
    by (simp add: getDensity_def particleDensity_def particleDensityMobile_def)
  have nn: "int (length (particles (initializeConstellation win rnd)))
        = \<lfloor>innerWidth win * innerHeight win / getDensity win\<rfloor>"
    if "0 \<le> innerWidth win * innerHeight win"
  proof -
    have "0 \<le> \<lfloor>innerWidth win * innerHeight win / getDensity win\<rfloor>"
      using that getDensity_pos[of win] by simp
    then show ?thesis
      by (simp only: len int_nat_eq if_True)
  qed
  have z: "particles (initializeConstellation win rnd) = []"
    if "innerWidth win * innerHeight win = 0"
  proof -
    have "innerWidth win * innerHeight win / getDensity win = 0"
      using that by (simp only: div_0)
    then have "nat \<lfloor>innerWidth win * innerHeight win / getDensity win\<rfloor> = 0"
      by (simp only: floor_zero nat_0)
    then show ?thesis
      by (simp only: len[symmetric] length_0_conv)
  qed
  show ?thesis
    using len d nn z by blast
qed

theorem particle_count_witness:
  "(0::real) \<le> innerWidth window_800_600 * innerHeight window_800_600 \<and>
   getDensity window_800_600 = 15000 \<and>
   length (particles (initializeConstellation window_800_600 random_half)) = 32 \<and>
   particles (initializeConstellation \<lparr>innerWidth = 800, innerHeight = 0\<rparr> random_half) = []"
  using particle_count[of window_800_600 random_half]
    particle_count[of "\<lparr>innerWidth = 800, innerHeight = 0\<rparr>" random_half]
  by (simp add: window_800_600_def)


section \<open>Frames, timer ticks and resizes\<close>

lemma those_map_Some:
  "those (map f xs) = Some ys \<Longrightarrow> list_all2 (\<lambda>a b. f a = Some b) xs ys"
  by (induction xs arbitrary: ys) (auto split: option.splits)

lemma those_map_total:
  "(\<And>a. \<exists>b. f a = Some b) \<Longrightarrow> \<exists>ys. those (map f xs) = Some ys"
proof (induction xs)
  case Nil show ?case by simp
next
  case (Cons a xs)
  obtain b where "f a = Some b" using Cons.prems by blast
  moreover obtain ys where "those (map f xs) = Some ys" using Cons by blast
  ultimately show ?case by simp
qed

lemma animate_total: "\<exists>st'. animate hidden m st = Some st'"
proof -
  obtain ps where "those (map (update (canvas_width st) (canvas_height st) m (frameCount st + 1))
      (particles st)) = Some ps"
    using those_map_total[of "update (canvas_width st) (canvas_height st) m (frameCount st + 1)"]
      update_total by blast
  then show ?thesis by (simp add: animate_def Let_def)
qed

lemma animate_hidden: "animate True m st = Some st"
  by (simp add: animate_def)

lemma animate_visible:
  assumes "animate False m st = Some st'"
  shows "list_all2 (\<lambda>p p'. update (canvas_width st) (canvas_height st) m (frameCount st + 1) p = Some p')
           (particles st) (particles st')"
    and "shootingStars st' =
           map star_update
             (filter (\<lambda>s. \<not> isDead (canvas_width st) (canvas_height st) s) (shootingStars st))"
    and "frameCount st' = frameCount st + 1"
    and "canvas_width st' = canvas_width st" and "canvas_height st' = canvas_height st"
    and "random st' = random st" and "allocated st' = allocated st"
  using assms those_map_Some
  by (auto simp: animate_def Let_def split: option.splits)

lemma new_ShootingStar_state:
  "snd (new_ShootingStar st) = st\<lparr>draws := draws st + 5, allocated := allocated st + 1\<rparr>"
  by (simp add: new_ShootingStar_def Math_random_def Let_def split_beta)

lemma new_ShootingStar_star:
  "star_ref (fst (new_ShootingStar st)) = allocated st"
  "life (fst (new_ShootingStar st)) = 1"
  "decay (fst (new_ShootingStar st)) = 0.008 + random st (draws st + 4) * 0.008"
  by (simp_all add: new_ShootingStar_def Math_random_def Let_def split_beta eval_nat_numeral)

lemma spawnShootingStar_cases:
  "spawnShootingStar hidden st = st \<or>
   spawnShootingStar hidden st = st\<lparr>draws := draws st + 1\<rparr> \<or>
   spawnShootingStar hidden st =
     st\<lparr>draws := draws st + 6, allocated := allocated st + 1,
        shootingStars := shootingStars st @ [fst (new_ShootingStar (st\<lparr>draws := draws st + 1\<rparr>))]\<rparr>"
  by (simp add: spawnShootingStar_def Math_random_def Let_def split_beta new_ShootingStar_state)

lemma star_update_fields [simp]:
  "star_ref (star_update s) = star_ref s" "decay (star_update s) = decay s"
  "life (star_update s) = life s - decay s"
  by (simp_all add: star_update_def)

lemma wellformed_push_star:
  assumes "wellformed st" "star_ref s = allocated st"
  shows "wellformed (st\<lparr>draws := d, allocated := allocated st + 1,
            shootingStars := shootingStars st @ [s]\<rparr>)"
proof -
  have "\<forall>p \<in> set (particles st). ref p < allocated st + 1"
    using assms(1) unfolding wellformed_def by (meson trans_less_add1)
  moreover have "\<forall>t \<in> set (shootingStars st). star_ref t < allocated st + 1"
    using assms(1) unfolding wellformed_def by (meson trans_less_add1)
  moreover have "star_ref s \<notin> star_ref ` set (shootingStars st)"
    using assms(1,2) unfolding wellformed_def by force
  ultimately show ?thesis
    using assms unfolding wellformed_def by simp
qed

lemma step_wellformed:
  assumes "wellformed st" "step e st = Some st'"
  shows "wellformed st' \<and> random st' = random st \<and> allocated st \<le> allocated st' \<and>
    (\<forall>r < allocated st. r \<in> star_ref ` set (shootingStars st') \<longrightarrow>
        r \<in> star_ref ` set (shootingStars st))"
proof (cases e)
  case (Frame hidden m)
  show ?thesis
  proof (cases hidden)
    case True
    then show ?thesis using assms Frame by (simp add: animate_hidden)
  next
    case False
    then have a: "animate False m st = Some st'" using assms Frame by simp
    have "map ref (particles st') = map ref (particles st)"
      using animate_visible(1)[OF a]
      by (induction rule: list_all2_induct) (auto dest: update_fields(6))
    then have "ref ` set (particles st') = ref ` set (particles st)"
      by (metis set_map)
    then have "\<forall>p \<in> set (particles st'). ref p \<in> ref ` set (particles st)"
      by blast
    then have p: "\<forall>p \<in> set (particles st'). ref p < allocated st'"
      using assms(1) animate_visible(7)[OF a] unfolding wellformed_def by auto
    have "distinct (map star_ref (shootingStars st'))"
      using assms(1) unfolding wellformed_def animate_visible(2)[OF a]
      by (simp add: comp_def distinct_map_filter)
    then show ?thesis
      using p assms(1) animate_visible(6,7)[OF a] unfolding wellformed_def animate_visible(2)[OF a]
      by auto
  qed
next
  case (Tick hidden)
  then have st': "st' = spawnShootingStar hidden st" using assms by simp
  have w: "wellformed (st\<lparr>draws := draws st + 6, allocated := allocated st + 1,
        shootingStars := shootingStars st @ [fst (new_ShootingStar (st\<lparr>draws := draws st + 1\<rparr>))]\<rparr>)"
    by (rule wellformed_push_star[OF assms(1)]) (simp add: new_ShootingStar_star)
  have w1: "wellformed (st\<lparr>draws := draws st + 1\<rparr>)"
    using assms(1) by (simp add: wellformed_def)
  from spawnShootingStar_cases[of hidden st] show ?thesis
  proof (elim disjE)
    assume "spawnShootingStar hidden st = st"
    then show ?thesis using assms(1) st' by simp
  next
    assume "spawnShootingStar hidden st = st\<lparr>draws := draws st + 1\<rparr>"
    then show ?thesis using w1 st' by simp
  next
    assume "spawnShootingStar hidden st =
     st\<lparr>draws := draws st + 6, allocated := allocated st + 1,
        shootingStars := shootingStars st @ [fst (new_ShootingStar (st\<lparr>draws := draws st + 1\<rparr>))]\<rparr>"
    then show ?thesis using w st' by (auto simp: new_ShootingStar_star)
  qed
next
  case (Resize win)
  then have st': "st' = handleResize win st" using assms by simp
  have "set (map ref (particles st')) \<subseteq> {..<allocated st'}"
    unfolding st' handleResize_def createParticles_refs
    by (auto simp: setCanvasSize_def)
  then have "\<forall>p \<in> set (particles st'). ref p < allocated st'"
    by auto
  then show ?thesis
    using assms(1) unfolding wellformed_def st' handleResize_def
    by (auto simp: setCanvasSize_def)
qed

lemma step_total: "\<exists>st'. step e st = Some st'"
  by (cases e) (simp_all add: animate_total)

lemma run_total: "\<exists>st'. run evs st = Some st'"
proof (induction evs arbitrary: st)
  case Nil show ?case by simp
next
  case (Cons e evs)
  obtain st1 where "step e st = Some st1" using step_total by blast
  then show ?case using Cons[of st1] by simp
qed

lemma run_wellformed:
  assumes "wellformed st" "run evs st = Some st'"
  shows "wellformed st' \<and> random st' = random st \<and> allocated st \<le> allocated st' \<and>
    (\<forall>r < allocated st. r \<in> star_ref ` set (shootingStars st') \<longrightarrow>
        r \<in> star_ref ` set (shootingStars st))"
  using assms
proof (induction evs arbitrary: st)
  case Nil then show ?case by simp
next
  case (Cons e evs)
  obtain st1 where s1: "step e st = Some st1" using step_total by blast
  with Cons.prems have r: "run evs st1 = Some st'" by simp
  note a = step_wellformed[OF Cons.prems(1) s1]
  note b = Cons.IH[OF conjunct1[OF a] r]
  show ?case
  proof (intro conjI allI impI)
    show "wellformed st'" using b by simp
    show "random st' = random st" using a b by simp
    show "allocated st \<le> allocated st'" using a b by linarith
    fix r assume "r < allocated st" "r \<in> star_ref ` set (shootingStars st')"
    moreover have "r < allocated st1" using a calculation(1) by linarith
    ultimately have "r \<in> star_ref ` set (shootingStars st1)" using b by blast
    then show "r \<in> star_ref ` set (shootingStars st)" using a \<open>r < allocated st\<close> by blast
  qed
qed

lemma init_wellformed:
  "wellformed (initializeConstellation win rnd)"
  "random (initializeConstellation win rnd) = rnd"
  "shootingStars (initializeConstellation win rnd) = []"
proof -
  have "set (map ref (particles (initializeConstellation win rnd)))
      \<subseteq> {..<allocated (initializeConstellation win rnd)}"
    unfolding initializeConstellation_def createParticles_refs
    by (auto simp: setCanvasSize_def)
  then have "\<forall>p \<in> set (particles (initializeConstellation win rnd)).
      ref p < allocated (initializeConstellation win rnd)"
    by auto
  then show "wellformed (initializeConstellation win rnd)"
    by (simp add: wellformed_def initializeConstellation_def setCanvasSize_def)
qed (simp_all add: initializeConstellation_def setCanvasSize_def)

lemma init_canvas:
  "canvas_width (initializeConstellation win rnd) = innerWidth win"
  "canvas_height (initializeConstellation win rnd) = innerHeight win"
  by (simp_all add: initializeConstellation_def setCanvasSize_def)

lemma new_Particle_ok:
  assumes "random_ok (random st)" "0 \<le> canvas_width st" "0 \<le> canvas_height st"
  shows "particle_ok (canvas_width st) (canvas_height st) (fst (new_Particle st))"
proof -
  note a = random_times[OF assms(1,2), of "draws st"]
  note b = random_times[OF assms(1,3), of "draws st + 1"]
  have "(0::real) \<le> particleMaxRadius - particleMinRadius"
    by (simp add: particleMaxRadius_def particleMinRadius_def)
  note c = random_times[OF assms(1) this, of "draws st + 4"]
  show ?thesis
    unfolding particle_ok_def new_Particle_fields using a b c by linarith
qed

lemma push_particles_ok:
  assumes "random_ok (random st)" "0 \<le> canvas_width st" "0 \<le> canvas_height st"
    and "\<forall>p \<in> set (particles st). particle_ok (canvas_width st) (canvas_height st) p"
  shows "\<forall>p \<in> set (particles (push_particles k st)).
     particle_ok (canvas_width st) (canvas_height st) p"
  using assms
proof (induction k arbitrary: st)
  case 0
  then show ?case by simp
next
  case (Suc k)
  let ?s = "(snd (new_Particle st))\<lparr>particles := particles (snd (new_Particle st)) @ [fst (new_Particle st)]\<rparr>"
  have f: "random ?s = random st" "canvas_width ?s = canvas_width st"
    "canvas_height ?s = canvas_height st"
    "particles ?s = particles st @ [fst (new_Particle st)]"
    by (simp_all add: new_Particle_state)
  have "\<forall>p \<in> set (particles (push_particles k ?s)).
     particle_ok (canvas_width ?s) (canvas_height ?s) p"
    by (rule Suc.IH) (use Suc.prems new_Particle_ok[OF Suc.prems(1,2,3)] f in auto)
  then show ?case
    by (simp add: split_beta Let_def f)
qed

lemma cos_sin_angle:
  assumes "0 \<le> r" "r < 1"
  shows "0 < cos (pi / 6 + r * pi / 4)" "0 < sin (pi / 6 + r * pi / 4)"
proof -
  have p: "0 < pi" by simp
  have "r * pi \<le> pi" using assms(2) p by simp
  moreover have "0 \<le> r * pi" using assms(1) p by simp
  ultimately have a: "0 < pi / 6 + r * pi / 4" "pi / 6 + r * pi / 4 < pi / 2"
    using p by linarith+
  show "0 < cos (pi / 6 + r * pi / 4)"
    by (rule cos_gt_zero_pi) (use a p in linarith)+
  show "0 < sin (pi / 6 + r * pi / 4)"
    by (rule sin_gt_zero) (use a p in linarith)+
qed

lemma new_ShootingStar_fields:
  "star_x (fst (new_ShootingStar st)) =
     (if random st (draws st) < 0.5 then random st (draws st + 1) * canvas_width st else - 10)"
  "star_y (fst (new_ShootingStar st)) =
     (if random st (draws st) < 0.5 then - 10 else random st (draws st + 1) * canvas_height st * 0.5)"
  "star_vx (fst (new_ShootingStar st)) =
     cos (pi / 6 + random st (draws st + 2) * pi / 4) * shootingStarSpeed"
  "star_vy (fst (new_ShootingStar st)) =
     sin (pi / 6 + random st (draws st + 2) * pi / 4) * shootingStarSpeed"
  by (simp_all add: new_ShootingStar_def Math_random_def Let_def split_beta eval_nat_numeral)

lemma new_ShootingStar_ok:
  assumes "random_ok (random st)" "0 \<le> canvas_width st" "0 \<le> canvas_height st"
  shows "star_ok (fst (new_ShootingStar st))"
proof -
  have r: "0 \<le> random st k" "random st k < 1" for k
    using assms(1) by (simp_all add: random_ok_def)
  note cs = cos_sin_angle[OF r, of "draws st + 2"]
  note a = random_times(1)[OF assms(1,2), of "draws st + 1"]
  note b = random_times(1)[OF assms(1,3), of "draws st + 1"]
  have d: "0 < decay (fst (new_ShootingStar st))"
    unfolding new_ShootingStar_star using r(1)[of "draws st + 4"] by (simp add: add_pos_nonneg)
  have px: "- 10 \<le> star_x (fst (new_ShootingStar st))"
    unfolding new_ShootingStar_fields using a by simp
  have py: "- 10 \<le> star_y (fst (new_ShootingStar st))"
    unfolding new_ShootingStar_fields using b by simp
  have v: "0 < star_vx (fst (new_ShootingStar st))" "0 < star_vy (fst (new_ShootingStar st))"
    unfolding new_ShootingStar_fields using cs by (simp_all add: shootingStarSpeed_def)
  show ?thesis
    unfolding star_ok_def using d px py v by simp
qed

lemma star_update_ok: "star_ok s \<Longrightarrow> star_ok (star_update s)"
  by (simp add: star_ok_def star_update_def)

lemma step_on_canvas:
  assumes "on_canvas st" "random_ok (random st)" "event_ok e" "step e st = Some st'"
  shows "on_canvas st'"
proof (cases e)
  case (Frame hidden m)
  show ?thesis
  proof (cases hidden)
    case True
    then show ?thesis using assms Frame by (simp add: animate_hidden)
  next
    case False
    then have a: "animate False m st = Some st'" using assms Frame by simp
    have w: "0 \<le> canvas_width st" "0 \<le> canvas_height st"
      using assms(1) by (simp_all add: on_canvas_def)
    have h: "\<forall>p \<in> set (particles st). particle_ok (canvas_width st) (canvas_height st) p"
      using assms(1) by (simp add: on_canvas_def)
    from animate_visible(1)[OF a] h
    have "\<forall>p' \<in> set (particles st'). particle_ok (canvas_width st) (canvas_height st) p'"
    proof (induction rule: list_all2_induct)
      case Nil
      show ?case by simp
    next
      case (Cons p ps p' ps')
      have "particle_ok (canvas_width st) (canvas_height st) p'"
        using update_position[OF w Cons.hyps(1)] update_fields(2)[OF Cons.hyps(1)] Cons.prems
        by (simp add: particle_ok_def)
      then show ?case using Cons by simp
    qed
    moreover have "\<forall>s \<in> set (shootingStars st'). star_ok s"
      using assms(1) unfolding animate_visible(2)[OF a] on_canvas_def
      by (auto intro: star_update_ok)
    ultimately show ?thesis
      using w by (simp add: on_canvas_def animate_visible(4,5)[OF a])
  qed
next
  case (Tick hidden)
  then have st': "st' = spawnShootingStar hidden st" using assms by simp
  have w: "0 \<le> canvas_width st" "0 \<le> canvas_height st"
    using assms(1) by (simp_all add: on_canvas_def)
  have "star_ok (fst (new_ShootingStar (st\<lparr>draws := draws st + 1\<rparr>)))"
    by (rule new_ShootingStar_ok) (use assms(2) w in simp_all)
  then show ?thesis
    using spawnShootingStar_cases[of hidden st] assms(1) unfolding st'
    by (elim disjE) (auto simp: on_canvas_def)
next
  case (Resize win)
  then have st': "st' = handleResize win st" using assms by simp
  have w: "0 \<le> innerWidth win" "0 \<le> innerHeight win"
    using assms(3) Resize by (simp_all add: event_ok_def)
  let ?s = "(setCanvasSize win st)\<lparr>particles := []\<rparr>"
  have "\<forall>p \<in> set (particles (push_particles k ?s)).
     particle_ok (canvas_width ?s) (canvas_height ?s) p" for k
    by (rule push_particles_ok) (use assms(2) w in \<open>simp_all add: setCanvasSize_def\<close>)
  then have "\<forall>p \<in> set (particles st'). particle_ok (innerWidth win) (innerHeight win) p"
    unfolding st' handleResize_def createParticles_def Let_def
    by (simp add: setCanvasSize_def)
  then show ?thesis
    using assms(1) w unfolding st' on_canvas_def
    by (simp add: handleResize_def setCanvasSize_def)
qed

lemma run_on_canvas:
  assumes "on_canvas st" "wellformed st" "random_ok (random st)" "list_all event_ok evs"
    and "run evs st = Some st'"
  shows "on_canvas st'"
  using assms
proof (induction evs arbitrary: st)
  case Nil
  then show ?case by simp
next
  case (Cons e evs)
  obtain st1 where s1: "step e st = Some st1" using step_total by blast
  with Cons.prems have r: "run evs st1 = Some st'" by simp
  note a = step_wellformed[OF Cons.prems(2) s1]
  have "on_canvas st1"
    using step_on_canvas[OF Cons.prems(1,3) _ s1] Cons.prems(4) by simp
  moreover have "random_ok (random st1)" using a Cons.prems(3) by simp
  ultimately show ?case
    using Cons.IH[OF _ conjunct1[OF a] _ _ r] Cons.prems(4) by simp
qed

lemma init_on_canvas:
  assumes "random_ok rnd" "0 \<le> innerWidth win" "0 \<le> innerHeight win"
  shows "on_canvas (initializeConstellation win rnd)"
proof -
  let ?s0 = "\<lparr>canvas_width = 0, canvas_height = 0, particles = [], shootingStars = [],
           frameCount = 0, random = rnd, draws = 0, allocated = 0\<rparr>"
  let ?s = "(setCanvasSize win ?s0)\<lparr>particles := []\<rparr>"
  have "\<forall>p \<in> set (particles (push_particles k ?s)).
     particle_ok (canvas_width ?s) (canvas_height ?s) p" for k
    by (rule push_particles_ok) (use assms in \<open>simp_all add: setCanvasSize_def\<close>)
  then have "\<forall>p \<in> set (particles (initializeConstellation win rnd)).
      particle_ok (innerWidth win) (innerHeight win) p"
    unfolding initializeConstellation_def createParticles_def Let_def
    by (simp add: setCanvasSize_def)
  then show ?thesis
    using assms(2,3) by (simp add: on_canvas_def init_canvas init_wellformed)
qed

text \<open>In every state that the renderer reaches, the particles lie on the canvas.\<close>

lemma reachable_in_bounds:
  assumes "random_ok rnd" "0 \<le> innerWidth win" "0 \<le> innerHeight win"
    and "list_all event_ok evs" "run evs (initializeConstellation win rnd) = Some st"
  shows "in_bounds (canvas_width st) (canvas_height st) (particles st)"
proof -
  have "on_canvas st"
    by (rule run_on_canvas[OF init_on_canvas[OF assms(1,2,3)] init_wellformed(1) _ assms(4,5)])
      (simp add: init_wellformed assms(1))
  then show ?thesis
    by (simp add: on_canvas_def in_bounds_def particle_ok_def)
qed

text \<open>
  C5. In every state that the renderer reaches (with \<open>Math.random()\<close> in \<open>[0, 1)\<close> and
  a window whose size is never negative): every live star has a positive decay, so
  \<open>update\<close> strictly lowers its life; it moves right and down, so that \<open>isDead\<close> holds
  exactly when its life is at most 0 or its position is more than 50 outside the
  canvas; a frame removes exactly the stars that are dead before it updates and draws
  the others, and keeps each other star once; and an object that is no longer (or was
  never) in \<open>shootingStars\<close> is never in it later, whatever frames, ticks and resizes
  follow, so that it is removed once and neither updated nor drawn afterwards.
\<close>

theorem shooting_star_lifecycle:
  assumes "random_ok rnd" "0 \<le> innerWidth win" "0 \<le> innerHeight win"
    and "list_all event_ok evs" "run evs (initializeConstellation win rnd) = Some st"
  shows "(\<forall>s \<in> set (shootingStars st).
       0 < decay s \<and> life (star_update s) < life s \<and> decay (star_update s) = decay s \<and>
       0 < star_vx s \<and> 0 < star_vy s \<and>
       (isDead (canvas_width st) (canvas_height st) s \<longleftrightarrow>
          life s \<le> 0 \<or>
          \<not> (- 50 \<le> star_x s \<and> star_x s \<le> canvas_width st + 50 \<and>
             - 50 \<le> star_y s \<and> star_y s \<le> canvas_height st + 50))) \<and>
    (\<forall>m. \<exists>st'. animate False m st = Some st' \<and>
       shootingStars st' =
         map star_update
           (filter (\<lambda>s. \<not> isDead (canvas_width st) (canvas_height st) s) (shootingStars st)) \<and>
       distinct (map star_ref (shootingStars st')) \<and>
       (\<forall>s \<in> set (shootingStars st).
          (if isDead (canvas_width st) (canvas_height st) s
           then star_ref s \<notin> star_ref ` set (shootingStars st')
           else star_update s \<in> set (shootingStars st')))) \<and>
    (\<forall>evs' st''. run evs' st = Some st'' \<longrightarrow>
       (\<forall>r < allocated st. r \<notin> star_ref ` set (shootingStars st) \<longrightarrow>
            r \<notin> star_ref ` set (shootingStars st'')))"
proof -
  note i = init_wellformed[of win rnd]
  have w: "wellformed st" and rs: "random st = rnd"
    using run_wellformed[OF i(1) assms(5)] i(2) by simp_all
  have "on_canvas st"
    by (rule run_on_canvas[OF init_on_canvas[OF assms(1,2,3)] i(1) _ assms(4,5)])
      (simp add: i assms(1))
  then have d: "\<forall>s \<in> set (shootingStars st). star_ok s"
    by (simp add: on_canvas_def)
  have 1: "\<forall>s \<in> set (shootingStars st).
       0 < decay s \<and> life (star_update s) < life s \<and> decay (star_update s) = decay s \<and>
       0 < star_vx s \<and> 0 < star_vy s \<and>
       (isDead (canvas_width st) (canvas_height st) s \<longleftrightarrow>
          life s \<le> 0 \<or>
          \<not> (- 50 \<le> star_x s \<and> star_x s \<le> canvas_width st + 50 \<and>
             - 50 \<le> star_y s \<and> star_y s \<le> canvas_height st + 50))"
  proof
    fix s assume "s \<in> set (shootingStars st)"
    then have "star_ok s" using d by blast
    then show "0 < decay s \<and> life (star_update s) < life s \<and> decay (star_update s) = decay s \<and>
       0 < star_vx s \<and> 0 < star_vy s \<and>
       (isDead (canvas_width st) (canvas_height st) s \<longleftrightarrow>
          life s \<le> 0 \<or>
          \<not> (- 50 \<le> star_x s \<and> star_x s \<le> canvas_width st + 50 \<and>
             - 50 \<le> star_y s \<and> star_y s \<le> canvas_height st + 50))"
      unfolding star_ok_def isDead_def by (simp add: not_le)
  qed
  have 2: "\<exists>st'. animate False m st = Some st' \<and>
       shootingStars st' =
         map star_update
           (filter (\<lambda>s. \<not> isDead (canvas_width st) (canvas_height st) s) (shootingStars st)) \<and>
       distinct (map star_ref (shootingStars st')) \<and>
       (\<forall>s \<in> set (shootingStars st).
          (if isDead (canvas_width st) (canvas_height st) s
           then star_ref s \<notin> star_ref ` set (shootingStars st')
           else star_update s \<in> set (shootingStars st')))" for m
  proof -
    obtain st' where a: "animate False m st = Some st'" using animate_total by blast
    have w': "wellformed st'"
      using step_wellformed[OF w, of "Frame False m" st'] a by simp
    have inj: "inj_on star_ref (set (shootingStars st))"
      using w unfolding wellformed_def by (simp add: distinct_map)
    have "star_ref s \<notin> star_ref ` set (shootingStars st')"
      if "s \<in> set (shootingStars st)" "isDead (canvas_width st) (canvas_height st) s" for s
    proof
      assume "star_ref s \<in> star_ref ` set (shootingStars st')"
      then obtain t where t: "t \<in> set (shootingStars st)"
        "\<not> isDead (canvas_width st) (canvas_height st) t" "star_ref t = star_ref s"
        unfolding animate_visible(2)[OF a] by auto
      then have "t = s" using inj that(1) by (auto dest: inj_onD)
      then show False using t that by simp
    qed
    then show ?thesis
      using a w' animate_visible(2)[OF a] unfolding wellformed_def by auto
  qed
  have 3: "r \<notin> star_ref ` set (shootingStars st'')"
    if "run evs' st = Some st''" "r < allocated st" "r \<notin> star_ref ` set (shootingStars st)"
    for evs' st'' r
    using run_wellformed[OF w that(1)] that(2,3) by blast
  show ?thesis using 1 2 3 by blast
qed

lemma random_ok_half: "random_ok random_half"
  by (simp add: random_ok_def random_half_def)

theorem shooting_star_lifecycle_witness:
  "random_ok random_half \<and>
   (\<exists>st. run [Tick False] (initializeConstellation window_800_600 random_half) = Some st \<and>
      map star_ref (shootingStars st) = [32] \<and>
      (\<forall>s \<in> set (shootingStars st). 0 < decay s \<and> life (star_update s) < life s) \<and>
      (\<exists>st'. animate False mouse_initial st = Some st' \<and>
          map star_ref (shootingStars st') = [32]) \<and>
      (\<exists>st''. run [Frame False mouse_initial, Tick False] st = Some st'' \<and>
          0 \<notin> star_ref ` set (shootingStars st'')))"
proof -
  let ?i = "initializeConstellation window_800_600 random_half"
  obtain st where st: "run [Tick False] ?i = Some st"
    using run_total by blast
  have ev: "list_all event_ok [Tick False]"
    by (simp add: event_ok_def)
  have wn: "0 \<le> innerWidth window_800_600" "0 \<le> innerHeight window_800_600"
    by (simp_all add: window_800_600_def)
  note t = shooting_star_lifecycle[OF random_ok_half wn ev st]
  have al: "allocated ?i = 32"
    by (simp add: initializeConstellation_def setCanvasSize_def window_800_600_def
        getDensity_def particleDensity_def)
  have sp: "spawnShootingStar False ?i =
      ?i\<lparr>draws := draws ?i + 6, allocated := allocated ?i + 1,
          shootingStars := shootingStars ?i @ [fst (new_ShootingStar (?i\<lparr>draws := draws ?i + 1\<rparr>))]\<rparr>"
    by (simp add: spawnShootingStar_def Math_random_def Let_def split_beta new_ShootingStar_state
        init_wellformed random_half_def)
  have st_eq: "st = spawnShootingStar False ?i"
    using st by simp
  have refs: "map star_ref (shootingStars st) = [32]"
    unfolding st_eq sp by (simp add: init_wellformed new_ShootingStar_star al)
  have cw: "canvas_width st = 800" "canvas_height st = 600"
    unfolding st_eq sp
    by (simp_all add: initializeConstellation_def setCanvasSize_def window_800_600_def)
  have alive: "\<forall>s \<in> set (shootingStars st). \<not> isDead 800 600 s"
    unfolding st_eq sp
    by (simp add: init_wellformed init_canvas isDead_def new_ShootingStar_def Math_random_def
        Let_def split_beta random_half_def window_800_600_def)
  obtain st' where st': "animate False mouse_initial st = Some st'"
    "shootingStars st' =
         map star_update
           (filter (\<lambda>s. \<not> isDead (canvas_width st) (canvas_height st) s) (shootingStars st))"
    using t by blast
  have "filter (\<lambda>s. \<not> isDead 800 600 s) (shootingStars st) = shootingStars st"
    using alive by simp
  then have refs': "map star_ref (shootingStars st') = [32]"
    using refs unfolding st'(2) cw by (simp add: comp_def)
  obtain st'' where st'': "run [Frame False mouse_initial, Tick False] st = Some st''"
    using run_total by blast
  have "allocated st = 33"
    unfolding st_eq sp by (simp add: al)
  then have "0 \<notin> star_ref ` set (shootingStars st'')"
    using t st'' refs by (metis (no_types, lifting) list.set_map empty_iff empty_set insert_iff
        list.simps(15) zero_less_numeral zero_neq_numeral)
  moreover have "\<forall>s \<in> set (shootingStars st). 0 < decay s \<and> life (star_update s) < life s"
    using t by blast
  ultimately have body: "run [Tick False] ?i = Some st \<and>
      map star_ref (shootingStars st) = [32] \<and>
      (\<forall>s \<in> set (shootingStars st). 0 < decay s \<and> life (star_update s) < life s) \<and>
      (\<exists>st'. animate False mouse_initial st = Some st' \<and>
          map star_ref (shootingStars st') = [32]) \<and>
      (\<exists>st''. run [Frame False mouse_initial, Tick False] st = Some st'' \<and>
          0 \<notin> star_ref ` set (shootingStars st''))"
    using st refs st'(1) refs' st'' by (intro conjI exI[of _ st'] exI[of _ st''])
  show ?thesis
    by (rule conjI[OF random_ok_half], rule exI[of _ st], rule body)
qed

text \<open>
  C7, as the code has it. After the resize callback the canvas has the size of the
  window, the number of particles is \<open>floor (newW * newH / D)\<close> with \<open>D\<close> the density
  that the new width selects (30000 below 768, else 15000), and every particle is an
  object made during the call: none of the particles from before is among them.
  From 800 by 600 to 400 by 300 the density becomes 30000 and 4 particles are left.
\<close>

theorem resize_recreates_particles:
  assumes "run evs (initializeConstellation win0 rnd) = Some st"
  shows "canvas_width (handleResize win st) = innerWidth win \<and>
     canvas_height (handleResize win st) = innerHeight win \<and>
     length (particles (handleResize win st))
       = nat \<lfloor>innerWidth win * innerHeight win / getDensity win\<rfloor> \<and>
     getDensity win = (if innerWidth win < 768 then 30000 else 15000) \<and>
     (\<forall>p \<in> set (particles (handleResize win st)).
         ref p \<notin> ref ` set (particles st) \<and> allocated st \<le> ref p)"
proof -
  have w: "wellformed st"
    using run_wellformed[OF init_wellformed(1) assms] by simp
  have r: "map ref (particles (handleResize win st)) =
     [allocated st..<allocated st + nat \<lfloor>innerWidth win * innerHeight win / getDensity win\<rfloor>]"
    by (simp add: handleResize_def createParticles_refs setCanvasSize_def)
  have "allocated st \<le> ref p" if "p \<in> set (particles (handleResize win st))" for p
  proof -
    have "ref p \<in> set (map ref (particles (handleResize win st)))"
      using that by simp
    then show ?thesis unfolding r by simp
  qed
  moreover have "\<forall>q \<in> set (particles st). ref q < allocated st"
    using w by (simp add: wellformed_def)
  ultimately have "\<forall>p \<in> set (particles (handleResize win st)).
         ref p \<notin> ref ` set (particles st) \<and> allocated st \<le> ref p"
    by fastforce
  moreover have "length (particles (handleResize win st))
       = nat \<lfloor>innerWidth win * innerHeight win / getDensity win\<rfloor>"
    using arg_cong[OF r, of length] by simp
  moreover have "getDensity win = (if innerWidth win < 768 then 30000 else 15000)"
    by (simp add: getDensity_def particleDensity_def particleDensityMobile_def)
  ultimately show ?thesis
    by (simp add: handleResize_def setCanvasSize_def)
qed

theorem resize_recreates_particles_witness:
  "run [] (initializeConstellation window_800_600 random_half)
     = Some (initializeConstellation window_800_600 random_half) \<and>
   length (particles (initializeConstellation window_800_600 random_half)) = 32 \<and>
   getDensity window_400_300 = 30000 \<and>
   length (particles (handleResize window_400_300
      (initializeConstellation window_800_600 random_half))) = 4 \<and>
   set (map ref (particles (handleResize window_400_300
      (initializeConstellation window_800_600 random_half))))
     \<inter> set (map ref (particles (initializeConstellation window_800_600 random_half))) = {}"
proof -
  let ?i = "initializeConstellation window_800_600 random_half"
  have r: "run [] ?i = Some ?i" by simp
  note t = resize_recreates_particles[OF r, of window_400_300]
  have d: "getDensity window_400_300 = 30000"
    using t by (simp add: window_400_300_def)
  have l: "length (particles (handleResize window_400_300 ?i)) = 4"
    using t d by (simp add: window_400_300_def)
  have i: "length (particles ?i) = 32"
    by (simp add: initializeConstellation_def length_createParticles setCanvasSize_def
        window_800_600_def getDensity_def particleDensity_def)
  have "set (map ref (particles (handleResize window_400_300 ?i)))
     \<inter> set (map ref (particles ?i)) = {}"
    using t by auto
  then show ?thesis using r d l i by simp
qed

text \<open>
  C7 as the claim states it: resizing from 800 by 600 to 400 by 300 leaves 4 particles,
  not 8, since a width of 400 selects \<open>particleDensityMobile\<close>.
\<close>

theorem resize_400_300_leaves_4:
  "length (particles (handleResize window_400_300
      (initializeConstellation window_800_600 random_half))) = 4 \<and>
   length (particles (handleResize window_400_300
      (initializeConstellation window_800_600 random_half))) \<noteq> 8"
  by (simp add: handleResize_def length_createParticles setCanvasSize_def
      window_400_300_def getDensity_def particleDensityMobile_def)

text \<open>After a frame every particle lies on the canvas.\<close>

lemma frame_in_bounds:
  assumes "0 \<le> canvas_width st" "0 \<le> canvas_height st" "animate False m st = Some st'"
  shows "in_bounds (canvas_width st') (canvas_height st') (particles st')"
proof -
  have "\<forall>p' \<in> set (particles st'). 0 \<le> x p' \<and> x p' \<le> canvas_width st \<and>
      0 \<le> y p' \<and> y p' \<le> canvas_height st"
    using animate_visible(1)[OF assms(3)]
    by (induction rule: list_all2_induct) (auto dest: update_position[OF assms(1,2)])
  then show ?thesis
    by (simp add: in_bounds_def animate_visible(4,5)[OF assms(3)])
qed

section \<open>The spatial grid and connectParticles\<close>

lemma grid_push_keys: "fst ` set (grid_push k i g) = insert k (fst ` set g)"
  by (induction k i g rule: grid_push.induct) (simp_all add: insert_commute)

lemma grid_push_sorted:
  "sorted_wrt (<) (map fst g) \<Longrightarrow> sorted_wrt (<) (map fst (grid_push k i g))"
proof (induction g)
  case Nil
  show ?case by simp
next
  case (Cons e g)
  obtain k' c where e: "e = (k', c)" by (cases e)
  have "\<forall>q \<in> fst ` set (grid_push k i g). k' < q" if "k' < k"
    using Cons.prems that unfolding grid_push_keys e by auto
  then show ?case
    using Cons e by auto
qed

lemma map_of_sorted_less:
  "sorted_wrt (<) (map fst (g::grid)) \<Longrightarrow> g \<noteq> [] \<Longrightarrow> k < fst (hd g) \<Longrightarrow> map_of g k = None"
proof (cases g)
  case Nil
  then show "g \<noteq> [] \<Longrightarrow> ?thesis" by simp
next
  case (Cons e g')
  assume "sorted_wrt (<) (map fst g)" "k < fst (hd g)"
  then have "k \<noteq> fst e" "\<forall>q \<in> fst ` set g'. k < q"
    using Cons by fastforce+
  then have "k \<notin> fst ` set g" using Cons by auto
  then show ?thesis by (simp add: map_of_eq_None_iff)
qed

lemma grid_push_map_of:
  "sorted_wrt (<) (map fst g) \<Longrightarrow>
   map_of (grid_push k i g) =
     (map_of g)(k \<mapsto> (case map_of g k of None \<Rightarrow> [i] | Some c \<Rightarrow> c @ [i]))"
proof (induction g)
  case Nil
  show ?case by simp
next
  case (Cons e g)
  obtain k' c where e: "e = (k', c)" by (cases e)
  show ?case
  proof (cases "k = k'")
    case True
    then show ?thesis by (auto simp: e)
  next
    case False
    show ?thesis
    proof (cases "k < k'")
      case True
      have "map_of (e # g) k = None"
        by (rule map_of_sorted_less) (use Cons.prems True e in auto)
      then show ?thesis
        using True False e by (auto simp: fun_eq_iff)
    next
      case F: False
      have "sorted_wrt (<) (map fst g)" using Cons.prems by simp
      then show ?thesis
        using Cons.IH F False e by (auto simp: fun_eq_iff)
    qed
  qed
qed

lemma build_grid_prefix:
  "sorted_wrt (<) (map fst (fold (\<lambda>idx g. grid_push (cell_key W (ps ! idx)) idx g) [0..<m] [])) \<and>
     (\<forall>k. map_of (fold (\<lambda>idx g. grid_push (cell_key W (ps ! idx)) idx g) [0..<m] []) k
        = (if cell_members W ps k m = [] then None else Some (cell_members W ps k m)))"
proof (induction m)
  case 0
  show ?case by (simp add: cell_members_def)
next
  case (Suc m)
  let ?g = "fold (\<lambda>idx g. grid_push (cell_key W (ps ! idx)) idx g) [0..<m] []"
  have ih: "sorted_wrt (<) (map fst ?g)"
    "\<And>k. map_of ?g k = (if cell_members W ps k m = [] then None else Some (cell_members W ps k m))"
    using Suc by simp_all
  have step: "fold (\<lambda>idx g. grid_push (cell_key W (ps ! idx)) idx g) [0..<Suc m] []
      = grid_push (cell_key W (ps ! m)) m ?g"
    by simp
  have mem: "cell_members W ps k (Suc m) =
      (if cell_key W (ps ! m) = k then cell_members W ps k m @ [m] else cell_members W ps k m)" for k
    by (simp add: cell_members_def)
  show ?case
    unfolding step
    by (simp add: grid_push_sorted[OF ih(1)] grid_push_map_of[OF ih(1)] ih(2) mem)
qed

lemma build_grid_eq:
  "build_grid W ps = fold (\<lambda>idx g. grid_push (cell_key W (ps ! idx)) idx g) [0..<length ps] []"
  by (simp add: build_grid_def cell_key_def Let_def)

lemma build_grid_sorted: "sorted_wrt (<) (map fst (build_grid W ps))"
  using build_grid_prefix[of W ps "length ps"] by (simp add: build_grid_eq)

lemma build_grid_distinct: "distinct (map fst (build_grid W ps))"
  using build_grid_sorted[of W ps] strict_sorted_iff by blast

lemma build_grid_map_of:
  "map_of (build_grid W ps) k =
     (if cell_members W ps k (length ps) = [] then None
      else Some (cell_members W ps k (length ps)))"
  using build_grid_prefix[of W ps "length ps"] by (simp add: build_grid_eq)

lemma build_grid_entry:
  "(k, c) \<in> set (build_grid W ps) \<longleftrightarrow> c = cell_members W ps k (length ps) \<and> c \<noteq> []"
  using map_of_eq_Some_iff[OF build_grid_distinct, of W ps k c]
  by (auto simp: build_grid_map_of split: if_splits)

lemma connect_cells_alt:
  "connect_cells ps cp np same =
     concat (map (\<lambda>i.
        concat (map (\<lambda>j. if close ps (cp ! i) (np ! j) then [mk_line ps (cp ! i) (np ! j)] else [])
          [(if same then i + 1 else 0)..<length np]))
       [0..<length cp])"
  by (simp add: connect_cells_def Let_def close_def mk_line_def distSq_def cong: if_cong)

lemma concat_map_if_mem:
  "l \<in> set (concat (map (\<lambda>j. if P j then [g j] else []) [s..<n])) \<longleftrightarrow>
     (\<exists>j. s \<le> j \<and> j < n \<and> P j \<and> l = g j)"
  by (induction n) auto

lemma concat_map_upt_mem:
  "l \<in> set (concat (map F [0..<m])) \<longleftrightarrow> (\<exists>i < m. l \<in> set (F i))"
  by (induction m) (auto simp: less_Suc_eq)

lemma connect_cells_mem:
  "l \<in> set (connect_cells ps cp np same) \<longleftrightarrow>
     (\<exists>i < length cp. \<exists>j < length np. (same \<longrightarrow> i < j) \<and> close ps (cp ! i) (np ! j) \<and>
        l = mk_line ps (cp ! i) (np ! j))"
proof -
  have "(\<exists>j. (if same then i + 1 else 0) \<le> j \<and> j < length np \<and> Q j) \<longleftrightarrow>
      (\<exists>j < length np. (same \<longrightarrow> i < j) \<and> Q j)" for i Q
    by (cases same) (auto simp: Suc_le_eq)
  then show ?thesis
    unfolding connect_cells_alt concat_map_upt_mem concat_map_if_mem by simp
qed

lemma cellSize_pos: "0 < cellSize"
  by (simp add: cellSize_def connectionDistance_def)

lemma cell_bounds:
  assumes "in_bounds W H ps" "p \<in> set ps"
  shows "0 \<le> cell_col p" "cell_col p < grid_cols W" "0 \<le> cell_row p" "cell_row p < grid_rows H"
proof -
  from assms have b: "0 \<le> x p" "x p \<le> W" "0 \<le> y p" "y p \<le> H"
    by (auto simp: in_bounds_def)
  show "0 \<le> cell_col p" "0 \<le> cell_row p"
    using b cellSize_pos by (simp_all add: cell_col_def cell_row_def)
  have "x p / cellSize \<le> W / cellSize"
    using b cellSize_pos by (simp add: divide_right_mono)
  then have "\<lfloor>x p / cellSize\<rfloor> \<le> \<lceil>W / cellSize\<rceil>"
    by (meson floor_le_ceiling floor_mono order_trans)
  then show "cell_col p < grid_cols W"
    by (simp add: cell_col_def grid_cols_def)
  have "y p / cellSize \<le> H / cellSize"
    using b cellSize_pos by (simp add: divide_right_mono)
  then have "\<lfloor>y p / cellSize\<rfloor> \<le> \<lceil>H / cellSize\<rceil>"
    by (meson floor_le_ceiling floor_mono order_trans)
  then show "cell_row p < grid_rows H"
    by (simp add: cell_row_def grid_rows_def)
qed

lemma key_div:
  fixes r c cols :: int
  assumes "0 \<le> c" "c < cols"
  shows "(r * cols + c) div cols = r" "(r * cols + c) mod cols = c"
  using assms by (simp_all add: div_pos_pos_trivial)

lemma key_decode:
  fixes r c cols :: int
  assumes "0 \<le> c" "c < cols" "0 \<le> r"
  shows "\<lfloor>real_of_int (r * cols + c) / real_of_int cols\<rfloor> = r"
    and "js_rem (r * cols + c) cols = c"
proof -
  show "\<lfloor>real_of_int (r * cols + c) / real_of_int cols\<rfloor> = r"
    unfolding floor_divide_of_int_eq using key_div(1)[OF assms(1,2)] .
  have nn: "0 \<le> r * cols + c" using assms by simp
  show "js_rem (r * cols + c) cols = c"
  proof (cases "r * cols + c = 0")
    case True
    moreover have "0 \<le> r * cols" using assms by simp
    ultimately have "c = 0" using assms(1) by linarith
    then show ?thesis using True by (simp add: js_rem_def)
  next
    case False
    then have "sgn (r * cols + c) = 1" using nn by simp
    moreover have "\<bar>r * cols + c\<bar> = r * cols + c" "\<bar>cols\<bar> = cols" using nn assms by simp_all
    ultimately show ?thesis
      unfolding js_rem_def using key_div(2)[OF assms(1,2)] by simp
  qed
qed

lemma key_inj:
  fixes r c r' c' cols :: int
  assumes "0 \<le> c" "c < cols" "0 \<le> c'" "c' < cols" "r * cols + c = r' * cols + c'"
  shows "r = r'" "c = c'"
proof -
  have "(r * cols + c) div cols = (r' * cols + c') div cols"
    "(r * cols + c) mod cols = (r' * cols + c') mod cols"
    using assms(5) by (rule arg_cong)+
  then show "r = r'" "c = c'"
    by (simp_all only: key_div[OF assms(1,2)] key_div[OF assms(3,4)])
qed

lemma floor_close:
  fixes a b :: real
  assumes "\<bar>a - b\<bar> < 1"
  shows "\<bar>\<lfloor>a\<rfloor> - \<lfloor>b\<rfloor>\<bar> \<le> 1"
proof -
  have "of_int \<lfloor>a\<rfloor> \<le> a" "a < of_int \<lfloor>a\<rfloor> + 1" "of_int \<lfloor>b\<rfloor> \<le> b" "b < of_int \<lfloor>b\<rfloor> + 1"
    by linarith+
  then have "real_of_int \<lfloor>a\<rfloor> - real_of_int \<lfloor>b\<rfloor> < 2" "real_of_int \<lfloor>b\<rfloor> - real_of_int \<lfloor>a\<rfloor> < 2"
    using assms by linarith+
  then have "\<lfloor>a\<rfloor> - \<lfloor>b\<rfloor> < 2" "\<lfloor>b\<rfloor> - \<lfloor>a\<rfloor> < 2"
    by linarith+
  then show ?thesis by linarith
qed

lemma sq_less_abs:
  fixes d e t :: real
  assumes "d * d + e * e < t * t" "0 < t"
  shows "\<bar>d\<bar> < t"
proof -
  have "0 \<le> e * e" by simp
  then have "d * d < t * t" using assms(1) by linarith
  then have "\<bar>d\<bar>\<^sup>2 < t\<^sup>2"
    by (simp add: power2_eq_square)
  then show ?thesis
    using assms(2) power2_less_imp_less[of "\<bar>d\<bar>" t] by simp
qed

lemma close_cells:
  assumes "close ps a b"
  shows "\<bar>cell_col (ps ! a) - cell_col (ps ! b)\<bar> \<le> 1" "\<bar>cell_row (ps ! a) - cell_row (ps ! b)\<bar> \<le> 1"
proof -
  let ?dx = "x (ps ! a) - x (ps ! b)" and ?dy = "y (ps ! a) - y (ps ! b)"
  have d: "?dx * ?dx + ?dy * ?dy < cellSize * cellSize"
    using assms by (simp add: close_def distSq_def cellSize_def)
  have "\<bar>?dx\<bar> < cellSize"
    by (rule sq_less_abs[OF d cellSize_pos])
  then have "\<bar>x (ps ! a) / cellSize - x (ps ! b) / cellSize\<bar> < 1"
    using cellSize_pos by (simp add: diff_divide_distrib[symmetric])
  then show "\<bar>cell_col (ps ! a) - cell_col (ps ! b)\<bar> \<le> 1"
    unfolding cell_col_def by (rule floor_close)
  have "?dy * ?dy + ?dx * ?dx < cellSize * cellSize"
    using d by simp
  then have "\<bar>?dy\<bar> < cellSize"
    by (rule sq_less_abs[OF _ cellSize_pos])
  then have "\<bar>y (ps ! a) / cellSize - y (ps ! b) / cellSize\<bar> < 1"
    using cellSize_pos by (simp add: diff_divide_distrib[symmetric])
  then show "\<bar>cell_row (ps ! a) - cell_row (ps ! b)\<bar> \<le> 1"
    unfolding cell_row_def by (rule floor_close)
qed

lemma cell_members_set:
  "set (cell_members W ps k n) = {i. i < n \<and> cell_key W (ps ! i) = k}"
  by (auto simp: cell_members_def)

lemma cell_members_sorted: "sorted_wrt (<) (cell_members W ps k n)"
  unfolding cell_members_def by (rule sorted_wrt_filter) (rule sorted_wrt_upt)

lemma cell_members_distinct: "distinct (cell_members W ps k n)"
  by (simp add: cell_members_def)

lemma cell_members_nth:
  assumes "i < length (cell_members W ps k n)"
  shows "cell_members W ps k n ! i < n" "cell_key W (ps ! (cell_members W ps k n ! i)) = k"
  using nth_mem[OF assms] unfolding cell_members_set by simp_all

lemma cell_members_index:
  assumes "a < n" "cell_key W (ps ! a) = k"
  shows "\<exists>i < length (cell_members W ps k n). cell_members W ps k n ! i = a"
proof -
  have "a \<in> set (cell_members W ps k n)"
    using assms by (simp add: cell_members_set)
  then show ?thesis by (simp add: in_set_conv_nth)
qed

lemma sorted_nth_less_iff:
  fixes xs :: "nat list"
  assumes "sorted_wrt (<) xs" "i < length xs" "j < length xs"
  shows "xs ! i < xs ! j \<longleftrightarrow> i < j"
proof -
  have m: "xs ! p < xs ! q" if "p < q" "q < length xs" for p q
    using assms(1) that sorted_wrt_nth_less by blast
  show ?thesis
  proof
    assume "i < j"
    then show "xs ! i < xs ! j" by (rule m[OF _ assms(3)])
  next
    assume l: "xs ! i < xs ! j"
    show "i < j"
    proof (rule ccontr)
      assume "\<not> i < j"
      then have "j = i \<or> j < i" by linarith
      then show False
      proof
        assume "j = i"
        then show False using l by (simp only: less_irrefl)
      next
        assume "j < i"
        then have "xs ! j < xs ! i" by (rule m[OF _ assms(2)])
        then show False using l by (rule less_asym)
      qed
    qed
  qed
qed

lemma cell_members_order:
  assumes "i < length (cell_members W ps k n)" "j < length (cell_members W ps k n)"
  shows "cell_members W ps k n ! i < cell_members W ps k n ! j \<longleftrightarrow> i < j"
  by (rule sorted_nth_less_iff[OF cell_members_sorted assms])

lemma cell_key_decode:
  assumes "in_bounds W H ps" "a < length ps"
  shows "\<lfloor>real_of_int (cell_key W (ps ! a)) / real_of_int (grid_cols W)\<rfloor> = cell_row (ps ! a)"
    and "js_rem (cell_key W (ps ! a)) (grid_cols W) = cell_col (ps ! a)"
  using key_decode[OF cell_bounds(1,2,3)[OF assms(1) nth_mem[OF assms(2)]]]
  by (simp_all add: cell_key_def)

lemma cell_key_eq:
  assumes "in_bounds W H ps" "b < length ps" "0 \<le> nc" "nc < grid_cols W"
  shows "cell_key W (ps ! b) = nr * grid_cols W + nc \<longleftrightarrow>
     cell_row (ps ! b) = nr \<and> cell_col (ps ! b) = nc"
  using key_inj[OF cell_bounds(1,2)[OF assms(1) nth_mem[OF assms(2)]] assms(3,4)]
  by (auto simp: cell_key_def)

lemma connect_neighbor_mem:
  "l \<in> set (connect_neighbor W H ps g cellRow cellCol cp (dr, dc)) \<longleftrightarrow>
     0 \<le> cellRow + dr \<and> cellRow + dr < grid_rows H \<and>
     0 \<le> cellCol + dc \<and> cellCol + dc < grid_cols W \<and>
     (\<exists>np. map_of g ((cellRow + dr) * grid_cols W + (cellCol + dc)) = Some np \<and>
           l \<in> set (connect_cells ps cp np (dr = 0 \<and> dc = 0)))"
  by (cases "map_of g ((cellRow + dr) * grid_cols W + (cellCol + dc))")
    (auto simp: connect_neighbor_def Let_def)

lemma connect_cell_mem:
  "l \<in> set (connect_cell W H ps g (k, cp)) \<longleftrightarrow>
    (\<exists>(dr, dc) \<in> set neighbors.
       l \<in> set (connect_neighbor W H ps g \<lfloor>real_of_int k / real_of_int (grid_cols W)\<rfloor>
                  (js_rem k (grid_cols W)) cp (dr, dc)))"
  by (auto simp: connect_cell_def Let_def)

lemma close_sym: "close ps a b \<longleftrightarrow> close ps b a"
  by (simp add: close_def distSq_def algebra_simps)

lemma offsets_irrefl:
  fixes ra rb ca cb :: int and a b :: nat
  shows "\<not> (((rb - ra = 0 \<and> cb - ca = 0 \<and> a < b) \<or> (rb - ra = 0 \<and> cb - ca = 1) \<or>
         (rb - ra = 1 \<and> cb - ca = - 1) \<or> (rb - ra = 1 \<and> cb - ca = 0) \<or>
         (rb - ra = 1 \<and> cb - ca = 1)) \<and>
     ((ra - rb = 0 \<and> ca - cb = 0 \<and> b < a) \<or> (ra - rb = 0 \<and> ca - cb = 1) \<or>
         (ra - rb = 1 \<and> ca - cb = - 1) \<or> (ra - rb = 1 \<and> ca - cb = 0) \<or>
         (ra - rb = 1 \<and> ca - cb = 1)))"
  by presburger

lemma offsets_total:
  fixes ra rb ca cb :: int and a b :: nat
  assumes "\<bar>ca - cb\<bar> \<le> 1" "\<bar>ra - rb\<bar> \<le> 1" "a \<noteq> b"
  shows "((rb - ra = 0 \<and> cb - ca = 0 \<and> a < b) \<or> (rb - ra = 0 \<and> cb - ca = 1) \<or>
         (rb - ra = 1 \<and> cb - ca = - 1) \<or> (rb - ra = 1 \<and> cb - ca = 0) \<or>
         (rb - ra = 1 \<and> cb - ca = 1)) \<or>
     ((ra - rb = 0 \<and> ca - cb = 0 \<and> b < a) \<or> (ra - rb = 0 \<and> ca - cb = 1) \<or>
         (ra - rb = 1 \<and> ca - cb = - 1) \<or> (ra - rb = 1 \<and> ca - cb = 0) \<or>
         (ra - rb = 1 \<and> ca - cb = 1))"
  using assms by presburger

lemma forward_irrefl: "\<not> (forward ps a b \<and> forward ps b a)"
  unfolding forward_def Let_def by (rule offsets_irrefl)

lemma forward_total:
  assumes "close ps a b" "a \<noteq> b"
  shows "forward ps a b \<or> forward ps b a"
  unfolding forward_def Let_def
  by (rule offsets_total[OF close_cells[OF assms(1)] assms(2)])

lemma forward_neighbors:
  "forward ps a b \<longleftrightarrow>
     (cell_row (ps ! b) - cell_row (ps ! a), cell_col (ps ! b) - cell_col (ps ! a)) \<in> set neighbors \<and>
     (cell_row (ps ! b) - cell_row (ps ! a) = 0 \<and> cell_col (ps ! b) - cell_col (ps ! a) = 0
        \<longrightarrow> a < b)"
  unfolding forward_def Let_def neighbors_def by (simp del: diff_eq_eq) presburger

lemma connect_sound:
  assumes ib: "in_bounds W H ps" and l: "l \<in> set (connectParticles W H ps)"
  shows "\<exists>a < length ps. \<exists>b < length ps. close ps a b \<and> forward ps a b \<and> l = mk_line ps a b"
proof -
  let ?n = "length ps" and ?g = "build_grid W ps" and ?cols = "grid_cols W"
  from l obtain k cp where e: "(k, cp) \<in> set ?g" and le: "l \<in> set (connect_cell W H ps ?g (k, cp))"
    by (auto simp: connectParticles_def Let_def)
  from e have cp: "cp = cell_members W ps k ?n" "cp \<noteq> []"
    by (auto simp: build_grid_entry)
  let ?cr = "\<lfloor>real_of_int k / real_of_int ?cols\<rfloor>" and ?cc = "js_rem k ?cols"
  from le obtain dr dc where o: "(dr, dc) \<in> set neighbors"
    and ln: "l \<in> set (connect_neighbor W H ps ?g ?cr ?cc cp (dr, dc))"
    unfolding connect_cell_mem by auto
  from ln obtain np where r: "0 \<le> ?cr + dr" "?cr + dr < grid_rows H" "0 \<le> ?cc + dc" "?cc + dc < ?cols"
    and np: "map_of ?g ((?cr + dr) * ?cols + (?cc + dc)) = Some np"
    and lc: "l \<in> set (connect_cells ps cp np (dr = 0 \<and> dc = 0))"
    unfolding connect_neighbor_mem by auto
  from np have np': "np = cell_members W ps ((?cr + dr) * ?cols + (?cc + dc)) ?n"
    by (simp add: build_grid_map_of split: if_splits)
  from lc obtain i j where ij: "i < length cp" "j < length np" "dr = 0 \<and> dc = 0 \<longrightarrow> i < j"
    "close ps (cp ! i) (np ! j)" "l = mk_line ps (cp ! i) (np ! j)"
    unfolding connect_cells_mem by auto
  let ?a = "cp ! i" and ?b = "np ! j"
  have a: "?a < ?n" "cell_key W (ps ! ?a) = k"
    using cell_members_nth[of i W ps k ?n] ij(1) cp(1) by simp_all
  have b: "?b < ?n" "cell_key W (ps ! ?b) = (?cr + dr) * ?cols + (?cc + dc)"
    using cell_members_nth[of j W ps "(?cr + dr) * ?cols + (?cc + dc)" ?n] ij(2) np' by simp_all
  have ka: "?cr = cell_row (ps ! ?a)" "?cc = cell_col (ps ! ?a)"
    using cell_key_decode[OF ib a(1)] a(2) by simp_all
  have kb: "cell_row (ps ! ?b) = ?cr + dr" "cell_col (ps ! ?b) = ?cc + dc"
    using cell_key_eq[OF ib b(1) r(3,4), of "?cr + dr"] b(2) by simp_all
  have d: "cell_row (ps ! ?b) - cell_row (ps ! ?a) = dr" "cell_col (ps ! ?b) - cell_col (ps ! ?a) = dc"
    using ka kb by simp_all
  have "?a < ?b" if z: "dr = 0 \<and> dc = 0"
  proof -
    have "cell_key W (ps ! ?b) = cell_key W (ps ! ?a)"
      unfolding cell_key_def using d z by simp
    then have "(?cr + dr) * ?cols + (?cc + dc) = k"
      using a(2) b(2) by simp
    then have "np = cp"
      using np' cp(1) by simp
    moreover have "i < j" using ij(3) z by simp
    ultimately show ?thesis
      using cell_members_order[of i W ps k ?n j] ij(1,2) cp(1) by simp
  qed
  then have "forward ps ?a ?b"
    unfolding forward_neighbors d using o by simp
  then show ?thesis
    using a(1) b(1) ij(4,5) by blast
qed

lemma connect_complete:
  assumes ib: "in_bounds W H ps" and a: "a < length ps" and b: "b < length ps"
    and c: "close ps a b" and f: "forward ps a b"
  shows "mk_line ps a b \<in> set (connectParticles W H ps)"
proof -
  let ?n = "length ps" and ?g = "build_grid W ps" and ?cols = "grid_cols W"
  let ?k = "cell_key W (ps ! a)" and ?k' = "cell_key W (ps ! b)"
  let ?cp = "cell_members W ps ?k ?n" and ?np = "cell_members W ps ?k' ?n"
  let ?dr = "cell_row (ps ! b) - cell_row (ps ! a)" and ?dc = "cell_col (ps ! b) - cell_col (ps ! a)"
  obtain i where i: "i < length ?cp" "?cp ! i = a"
    using cell_members_index[OF a refl] by blast
  obtain j where j: "j < length ?np" "?np ! j = b"
    using cell_members_index[OF b refl] by blast
  have ne: "?cp \<noteq> []" "?np \<noteq> []" using i(1) j(1) by auto
  have e: "(?k, ?cp) \<in> set ?g"
    using ne by (simp add: build_grid_entry)
  have ka: "\<lfloor>real_of_int ?k / real_of_int ?cols\<rfloor> = cell_row (ps ! a)"
    "js_rem ?k ?cols = cell_col (ps ! a)"
    using cell_key_decode[OF ib a] by simp_all
  have o: "(?dr, ?dc) \<in> set neighbors" and s: "?dr = 0 \<and> ?dc = 0 \<longrightarrow> a < b"
    using f unfolding forward_neighbors by simp_all
  note bb = cell_bounds[OF ib nth_mem[OF b]]
  have nk: "(cell_row (ps ! a) + ?dr) * ?cols + (cell_col (ps ! a) + ?dc) = ?k'"
    by (simp add: cell_key_def)
  have m: "map_of ?g ?k' = Some ?np"
    using ne by (simp add: build_grid_map_of)
  have ij: "i < j" if z: "?dr = 0 \<and> ?dc = 0"
  proof -
    have "cell_row (ps ! b) = cell_row (ps ! a)" "cell_col (ps ! b) = cell_col (ps ! a)"
      using z by simp_all
    then have kk: "?k' = ?k" by (simp only: cell_key_def)
    have "a < b" using s z by blast
    then have "?cp ! i < ?cp ! j" using i(2) j(2) kk by simp
    then show ?thesis
      using cell_members_order[of i W ps ?k ?n j] i(1) j(1) kk by simp
  qed
  have "close ps (?cp ! i) (?np ! j)"
    using c i(2) j(2) by simp
  moreover have "mk_line ps a b = mk_line ps (?cp ! i) (?np ! j)"
    using i(2) j(2) by simp
  ultimately have "\<exists>i' < length ?cp. \<exists>j' < length ?np. (?dr = 0 \<and> ?dc = 0 \<longrightarrow> i' < j') \<and>
      close ps (?cp ! i') (?np ! j') \<and> mk_line ps a b = mk_line ps (?cp ! i') (?np ! j')"
    using i(1) j(1) ij by blast
  then have lc: "mk_line ps a b \<in> set (connect_cells ps ?cp ?np (?dr = 0 \<and> ?dc = 0))"
    by (simp only: connect_cells_mem)
  have r: "cell_row (ps ! a) + ?dr = cell_row (ps ! b)" "cell_col (ps ! a) + ?dc = cell_col (ps ! b)"
    by simp_all
  have "mk_line ps a b \<in> set (connect_neighbor W H ps ?g (cell_row (ps ! a))
      (cell_col (ps ! a)) ?cp (?dr, ?dc))"
    unfolding connect_neighbor_mem r
    using bb m lc by (simp add: cell_key_def)
  then have "\<exists>(dr, dc) \<in> set neighbors. mk_line ps a b \<in> set (connect_neighbor W H ps ?g
      \<lfloor>real_of_int ?k / real_of_int ?cols\<rfloor> (js_rem ?k ?cols) ?cp (dr, dc))"
    unfolding ka using o by blast
  then have "mk_line ps a b \<in> set (connect_cell W H ps ?g (?k, ?cp))"
    by (simp only: connect_cell_mem)
  then have "\<exists>e \<in> set ?g. mk_line ps a b \<in> set (connect_cell W H ps ?g e)"
    using e by blast
  then show ?thesis
    by (simp add: connectParticles_def Let_def)
qed

lemma distinct_map_concat_map:
  assumes "distinct xs"
    and "\<And>a. a \<in> set xs \<Longrightarrow> distinct (map h (f a))"
    and "\<And>a b u v. a \<in> set xs \<Longrightarrow> b \<in> set xs \<Longrightarrow> a \<noteq> b \<Longrightarrow>
           u \<in> set (f a) \<Longrightarrow> v \<in> set (f b) \<Longrightarrow> h u \<noteq> h v"
  shows "distinct (map h (concat (map f xs)))"
  using assms
proof (induction xs)
  case Nil
  show ?case by simp
next
  case (Cons a xs)
  have 1: "distinct (map h (f a))"
    using Cons.prems(2) by simp
  have 2: "distinct (map h (concat (map f xs)))"
    using Cons.IH Cons.prems by (metis distinct.simps(2) list.set_intros(1,2))
  have 3: "h u \<noteq> h v" if "u \<in> set (f a)" "v \<in> set (concat (map f xs))" for u v
  proof -
    from that(2) obtain b where b: "b \<in> set xs" "v \<in> set (f b)" by auto
    then have "a \<noteq> b" using Cons.prems(1) by auto
    then show ?thesis
      using Cons.prems(3)[of a b u v] b that(1) by simp
  qed
  have "h ` set (f a) \<inter> h ` set (concat (map f xs)) = {}"
    using 3 by blast
  then show ?case
    using 1 2 by simp
qed

lemma connect_cells_ends:
  assumes "u \<in> set (connect_cells ps cp np same)"
  shows "line_p1 u \<in> set cp" "line_p2 u \<in> set np"
  using assms unfolding connect_cells_mem by (auto simp: mk_line_def)

lemma connect_cells_distinct:
  assumes "distinct cp" "distinct np"
  shows "distinct (map line_ends (connect_cells ps cp np same))"
  unfolding connect_cells_alt
proof (rule distinct_map_concat_map)
  show "distinct [0..<length cp]" by simp
next
  fix i assume "i \<in> set [0..<length cp]"
  show "distinct (map line_ends (concat (map (\<lambda>j. if close ps (cp ! i) (np ! j)
      then [mk_line ps (cp ! i) (np ! j)] else []) [if same then i + 1 else 0..<length np])))"
  proof (rule distinct_map_concat_map)
    show "distinct [if same then i + 1 else 0..<length np]" by simp
  next
    fix j
    show "distinct (map line_ends (if close ps (cp ! i) (np ! j)
        then [mk_line ps (cp ! i) (np ! j)] else []))"
      by simp
  next
    fix j j' u v
    assume j: "j \<in> set [if same then i + 1 else 0..<length np]"
      "j' \<in> set [if same then i + 1 else 0..<length np]" "j \<noteq> j'"
      and u: "u \<in> set (if close ps (cp ! i) (np ! j) then [mk_line ps (cp ! i) (np ! j)] else [])"
      and v: "v \<in> set (if close ps (cp ! i) (np ! j') then [mk_line ps (cp ! i) (np ! j')] else [])"
    have "np ! j \<noteq> np ! j'"
      using j assms(2) by (simp add: nth_eq_iff_index_eq)
    moreover have "line_p2 u = np ! j" "line_p2 v = np ! j'"
      using u v by (auto simp: mk_line_def split: if_splits)
    ultimately show "line_ends u \<noteq> line_ends v"
      by (simp add: line_ends_def)
  qed
next
  fix i i' u v
  assume i: "i \<in> set [0..<length cp]" "i' \<in> set [0..<length cp]" "i \<noteq> i'"
    and u: "u \<in> set (concat (map (\<lambda>j. if close ps (cp ! i) (np ! j)
      then [mk_line ps (cp ! i) (np ! j)] else []) [if same then i + 1 else 0..<length np]))"
    and v: "v \<in> set (concat (map (\<lambda>j. if close ps (cp ! i') (np ! j)
      then [mk_line ps (cp ! i') (np ! j)] else []) [if same then i' + 1 else 0..<length np]))"
  have "cp ! i \<noteq> cp ! i'"
    using i assms(1) by (simp add: nth_eq_iff_index_eq)
  moreover have "line_p1 u = cp ! i" "line_p1 v = cp ! i'"
    using u v unfolding concat_map_if_mem by (auto simp: mk_line_def)
  ultimately show "line_ends u \<noteq> line_ends v"
    by (simp add: line_ends_def)
qed

lemma connect_neighbor_ends:
  assumes "u \<in> set (connect_neighbor W H ps (build_grid W ps) cr cc cp (dr, dc))"
  shows "line_p1 u \<in> set cp"
    and "cell_key W (ps ! line_p2 u) = (cr + dr) * grid_cols W + (cc + dc)"
    and "0 \<le> cc + dc" and "cc + dc < grid_cols W"
proof -
  from assms obtain np where r: "0 \<le> cc + dc" "cc + dc < grid_cols W"
    and np: "map_of (build_grid W ps) ((cr + dr) * grid_cols W + (cc + dc)) = Some np"
    and u: "u \<in> set (connect_cells ps cp np (dr = 0 \<and> dc = 0))"
    unfolding connect_neighbor_mem by blast
  from np have "np = cell_members W ps ((cr + dr) * grid_cols W + (cc + dc)) (length ps)"
    by (simp add: build_grid_map_of split: if_splits)
  then have "line_p2 u \<in> set (cell_members W ps ((cr + dr) * grid_cols W + (cc + dc)) (length ps))"
    using connect_cells_ends(2)[OF u] by simp
  then show "cell_key W (ps ! line_p2 u) = (cr + dr) * grid_cols W + (cc + dc)"
    by (simp add: cell_members_set)
  show "line_p1 u \<in> set cp" by (rule connect_cells_ends(1)[OF u])
  show "0 \<le> cc + dc" "cc + dc < grid_cols W" by (rule r)+
qed

lemma connect_neighbor_distinct:
  assumes "distinct cp"
  shows "distinct (map line_ends (connect_neighbor W H ps (build_grid W ps) cr cc cp offset))"
proof (cases "map_of (build_grid W ps)
    ((cr + fst offset) * grid_cols W + (cc + snd offset))")
  case None
  then show ?thesis by (simp add: connect_neighbor_def Let_def)
next
  case (Some np)
  then have "np = cell_members W ps ((cr + fst offset) * grid_cols W + (cc + snd offset)) (length ps)"
    by (simp add: build_grid_map_of split: if_splits)
  then have "distinct np" by (simp add: cell_members_distinct)
  then show ?thesis
    using Some assms by (simp add: connect_neighbor_def Let_def connect_cells_distinct)
qed

lemma connect_cell_distinct:
  assumes "distinct cp"
  shows "distinct (map line_ends (connect_cell W H ps (build_grid W ps) (k, cp)))"
  unfolding connect_cell_def Let_def
proof (rule distinct_map_concat_map)
  show "distinct neighbors" by (simp add: neighbors_def)
next
  fix offset
  show "distinct (map line_ends (connect_neighbor W H ps (build_grid W ps)
      \<lfloor>real_of_int (fst (k, cp)) / real_of_int (grid_cols W)\<rfloor>
      (js_rem (fst (k, cp)) (grid_cols W)) (snd (k, cp)) offset))"
    using connect_neighbor_distinct[OF assms] by simp
next
  fix o1 o2 u v
  let ?cr = "\<lfloor>real_of_int (fst (k, cp)) / real_of_int (grid_cols W)\<rfloor>"
  let ?cc = "js_rem (fst (k, cp)) (grid_cols W)"
  assume ne: "o1 \<noteq> o2"
    and u: "u \<in> set (connect_neighbor W H ps (build_grid W ps) ?cr ?cc (snd (k, cp)) o1)"
    and v: "v \<in> set (connect_neighbor W H ps (build_grid W ps) ?cr ?cc (snd (k, cp)) o2)"
  obtain dr dc where o1: "o1 = (dr, dc)" by (cases o1)
  obtain dr' dc' where o2: "o2 = (dr', dc')" by (cases o2)
  note a = connect_neighbor_ends[OF u[unfolded o1]]
  note b = connect_neighbor_ends[OF v[unfolded o2]]
  have "line_p2 u \<noteq> line_p2 v"
  proof
    assume "line_p2 u = line_p2 v"
    then have "(?cr + dr) * grid_cols W + (?cc + dc) = (?cr + dr') * grid_cols W + (?cc + dc')"
      using a(2) b(2) by simp
    then have "?cr + dr = ?cr + dr'" "?cc + dc = ?cc + dc'"
      using key_inj[OF a(3,4) b(3,4)] by blast+
    then show False using ne o1 o2 by simp
  qed
  then show "line_ends u \<noteq> line_ends v"
    by (simp add: line_ends_def)
qed

lemma connect_cell_p1:
  assumes "u \<in> set (connect_cell W H ps (build_grid W ps) (k, cp))"
  shows "line_p1 u \<in> set cp"
proof -
  from assms obtain dr dc where
    "u \<in> set (connect_neighbor W H ps (build_grid W ps)
        \<lfloor>real_of_int k / real_of_int (grid_cols W)\<rfloor> (js_rem k (grid_cols W)) cp (dr, dc))"
    unfolding connect_cell_mem by blast
  then show ?thesis by (rule connect_neighbor_ends(1))
qed

lemma connect_distinct: "distinct (map line_ends (connectParticles W H ps))"
  unfolding connectParticles_def Let_def
proof (rule distinct_map_concat_map)
  show "distinct (build_grid W ps)"
    using build_grid_distinct[of W ps] by (rule distinct_map[THEN iffD1, THEN conjunct1])
next
  fix e assume "e \<in> set (build_grid W ps)"
  then have "snd e = cell_members W ps (fst e) (length ps)"
    using build_grid_entry[of "fst e" "snd e" W ps] by simp
  then have "distinct (snd e)" by (simp add: cell_members_distinct)
  then show "distinct (map line_ends (connect_cell W H ps (build_grid W ps) e))"
    using connect_cell_distinct[of "snd e" W H ps "fst e"] by simp
next
  fix e1 e2 u v
  assume e: "e1 \<in> set (build_grid W ps)" "e2 \<in> set (build_grid W ps)" "e1 \<noteq> e2"
    and u: "u \<in> set (connect_cell W H ps (build_grid W ps) e1)"
    and v: "v \<in> set (connect_cell W H ps (build_grid W ps) e2)"
  have s: "snd e1 = cell_members W ps (fst e1) (length ps)"
    "snd e2 = cell_members W ps (fst e2) (length ps)"
    using build_grid_entry[of "fst e1" "snd e1" W ps]
      build_grid_entry[of "fst e2" "snd e2" W ps] e(1,2) by simp_all
  have k: "fst e1 \<noteq> fst e2"
    using s e(3) by (metis prod.collapse)
  have "line_p1 u \<in> set (snd e1)" "line_p1 v \<in> set (snd e2)"
    using connect_cell_p1[of u W H ps "fst e1" "snd e1"]
      connect_cell_p1[of v W H ps "fst e2" "snd e2"] u v by simp_all
  then have "cell_key W (ps ! line_p1 u) = fst e1" "cell_key W (ps ! line_p1 v) = fst e2"
    unfolding s cell_members_set by simp_all
  then have "line_p1 u \<noteq> line_p1 v"
    using k by auto
  then show "line_ends u \<noteq> line_ends v"
    by (simp add: line_ends_def)
qed

lemma bruteForcePairs_alt:
  "bruteForcePairs ps =
     concat (map (\<lambda>i. concat (map (\<lambda>j. if close ps i j then [(i, j)] else [])
        [i + 1..<length ps])) [0..<length ps])"
  by (simp add: bruteForcePairs_def close_def)

lemma bruteForcePairs_mem:
  "(i, j) \<in> set (bruteForcePairs ps) \<longleftrightarrow> i < j \<and> j < length ps \<and> close ps i j"
  unfolding bruteForcePairs_alt concat_map_upt_mem concat_map_if_mem
  by (auto simp: Suc_le_eq)

lemma bruteForcePairs_distinct: "distinct (bruteForcePairs ps)"
proof -
  have "distinct (map (\<lambda>p. p) (bruteForcePairs ps))"
    unfolding bruteForcePairs_alt
  proof (rule distinct_map_concat_map)
    show "distinct [0..<length ps]" by simp
  next
    fix i
    show "distinct (map (\<lambda>p. p) (concat (map (\<lambda>j. if close ps i j then [(i, j)] else [])
        [i + 1..<length ps])))"
      by (rule distinct_map_concat_map) (auto split: if_splits)
  next
    fix i i' :: nat and u v :: "nat \<times> nat"
    assume "i \<noteq> i'"
      and "u \<in> set (concat (map (\<lambda>j. if close ps i j then [(i, j)] else []) [i + 1..<length ps]))"
      and "v \<in> set (concat (map (\<lambda>j. if close ps i' j then [(i', j)] else []) [i' + 1..<length ps]))"
    then show "u \<noteq> v"
      unfolding concat_map_if_mem by auto
  qed
  then show ?thesis by simp
qed

lemma line_pair_mk_line: "line_pair (mk_line ps a b) = (min a b, max a b)"
  by (simp add: line_pair_def mk_line_def)

lemma forward_neq: "forward ps a b \<Longrightarrow> a \<noteq> b"
  by (auto simp: forward_def Let_def)

lemma connect_pairs_set:
  assumes "in_bounds W H ps"
  shows "set (map line_pair (connectParticles W H ps)) = set (bruteForcePairs ps)"
proof (intro set_eqI iffI)
  fix p assume "p \<in> set (map line_pair (connectParticles W H ps))"
  then obtain l where l: "l \<in> set (connectParticles W H ps)" "p = line_pair l" by auto
  from connect_sound[OF assms l(1)] obtain a b where
    ab: "a < length ps" "b < length ps" "close ps a b" "forward ps a b" "l = mk_line ps a b"
    by blast
  have ne: "a \<noteq> b" using ab(4) by (rule forward_neq)
  have "(min a b, max a b) \<in> set (bruteForcePairs ps)"
  proof (cases "a < b")
    case True
    then show ?thesis using ab by (simp add: bruteForcePairs_mem)
  next
    case False
    then have "b < a" using ne by simp
    then show ?thesis
      using ab close_sym[of ps a b] by (simp add: bruteForcePairs_mem min_def max_def)
  qed
  then show "p \<in> set (bruteForcePairs ps)"
    using l(2) ab(5) by (simp add: line_pair_mk_line)
next
  fix p assume p: "p \<in> set (bruteForcePairs ps)"
  obtain i j where ij: "p = (i, j)" by (cases p)
  from p have h: "i < j" "j < length ps" "close ps i j"
    unfolding ij bruteForcePairs_mem by simp_all
  have i: "i < length ps" using h by simp
  from forward_total[OF h(3)] h(1) have "forward ps i j \<or> forward ps j i" by simp
  then show "p \<in> set (map line_pair (connectParticles W H ps))"
  proof
    assume "forward ps i j"
    then have "mk_line ps i j \<in> set (connectParticles W H ps)"
      by (rule connect_complete[OF assms i h(2,3)])
    moreover have "line_pair (mk_line ps i j) = p"
      using h(1) by (simp add: line_pair_mk_line ij)
    ultimately show ?thesis by force
  next
    assume f: "forward ps j i"
    have "close ps j i" using h(3) close_sym by blast
    then have "mk_line ps j i \<in> set (connectParticles W H ps)"
      using f by (rule connect_complete[OF assms h(2) i])
    moreover have "line_pair (mk_line ps j i) = p"
      using h(1) by (simp add: line_pair_mk_line ij min_def max_def)
    ultimately show ?thesis by force
  qed
qed

lemma connect_pairs_distinct:
  assumes "in_bounds W H ps"
  shows "distinct (map line_pair (connectParticles W H ps))"
proof -
  have "inj_on line_pair (set (connectParticles W H ps))"
  proof (rule inj_onI)
    fix l l'
    assume l: "l \<in> set (connectParticles W H ps)" and l': "l' \<in> set (connectParticles W H ps)"
      and e: "line_pair l = line_pair l'"
    from connect_sound[OF assms l] obtain a b where
      ab: "forward ps a b" "l = mk_line ps a b" by blast
    from connect_sound[OF assms l'] obtain a' b' where
      ab': "forward ps a' b'" "l' = mk_line ps a' b'" by blast
    have "(min a b, max a b) = (min a' b', max a' b')"
      using e ab(2) ab'(2) by (simp add: line_pair_mk_line)
    then have "(a = a' \<and> b = b') \<or> (a = b' \<and> b = a')"
      by (auto simp: min_def max_def split: if_splits)
    then show "l = l'"
    proof
      assume "a = a' \<and> b = b'"
      then show ?thesis using ab(2) ab'(2) by simp
    next
      assume "a = b' \<and> b = a'"
      then have "forward ps a b \<and> forward ps b a" using ab(1) ab'(1) by simp
      then show ?thesis using forward_irrefl by blast
    qed
  qed
  moreover have "distinct (connectParticles W H ps)"
    using connect_distinct[of W H ps] by (rule distinct_map[THEN iffD1, THEN conjunct1])
  ultimately show ?thesis by (simp add: distinct_map)
qed

text \<open>The sample particles: on the canvas, one pair within reach, three cells.\<close>

lemma sample_in_bounds: "in_bounds 800 600 sample_particles"
  by (simp add: in_bounds_def sample_particles_def still_particle_def)

lemma sample_brute_force: "bruteForcePairs sample_particles = [(0, 1)]"
  by (simp add: bruteForcePairs_def sample_particles_def still_particle_def distSq_def
      connectionDistance_def upt_rec)

lemma sample_grid: "build_grid 800 sample_particles = [(0, [0]), (1, [1]), (37, [2])]"
  by (simp add: build_grid_def sample_particles_def still_particle_def cell_col_def cell_row_def
      grid_cols_def cellSize_def connectionDistance_def Let_def upt_rec)

lemma sample_distances:
  "sqrt (distSq (sample_particles ! 0) (sample_particles ! 1)) = 50"
  "connectionDistance \<le> sqrt (distSq (sample_particles ! 0) (sample_particles ! 2))"
proof -
  have "sqrt 2500 = 50"
    by (rule real_sqrt_unique) (simp_all add: power2_eq_square)
  then show "sqrt (distSq (sample_particles ! 0) (sample_particles ! 1)) = 50"
    by (simp add: sample_particles_def still_particle_def distSq_def)
  have "(120::real) \<le> sqrt 520000"
    by (rule real_le_rsqrt) (simp add: power2_eq_square)
  then show "connectionDistance \<le> sqrt (distSq (sample_particles ! 0) (sample_particles ! 2))"
    by (simp add: sample_particles_def still_particle_def distSq_def connectionDistance_def)
qed

text \<open>The first two sample particles, evaluated: one line, of opacity \<open>1 - 50 / 120\<close>.\<close>

lemma connectParticles_sample:
  "connectParticles 800 600 (take 2 sample_particles)
     = [\<lparr>line_p1 = 0, line_p2 = 1, line_alpha = 7 / 12\<rparr>]"
proof -
  have "sqrt 2500 = 50"
    by (rule real_sqrt_unique) (simp_all add: power2_eq_square)
  then show ?thesis
    by (simp add: connectParticles_def build_grid_def connect_cell_def connect_neighbor_def
        connect_cells_def sample_particles_def still_particle_def cell_col_def cell_row_def
        grid_cols_def grid_rows_def cellSize_def connectionDistance_def neighbors_def js_rem_def
        Let_def upt_rec)
qed

text \<open>
  C1. For particles that lie on the canvas (as they do in every frame), the lines that
  \<open>connectParticles\<close> strokes, read as unordered pairs of particles, are exactly the
  pairs of the brute-force check, each once: the two lists are equal as multisets, no
  pair is stroked twice, and a pair is stroked if and only if its squared distance is
  below the squared connection distance.
\<close>

theorem spatial_hash_equals_brute_force:
  assumes "in_bounds W H ps"
  shows "mset (map line_pair (connectParticles W H ps)) = mset (bruteForcePairs ps) \<and>
    distinct (map line_pair (connectParticles W H ps)) \<and>
    set (map line_pair (connectParticles W H ps))
      = {(i, j). i < j \<and> j < length ps \<and>
           distSq (ps ! i) (ps ! j) < connectionDistance * connectionDistance}"
proof -
  note d = connect_pairs_distinct[OF assms] and s = connect_pairs_set[OF assms]
  have "mset (map line_pair (connectParticles W H ps)) = mset (bruteForcePairs ps)"
    using set_eq_iff_mset_eq_distinct[OF d bruteForcePairs_distinct] s by blast
  moreover have "set (bruteForcePairs ps) = {(i, j). i < j \<and> j < length ps \<and>
           distSq (ps ! i) (ps ! j) < connectionDistance * connectionDistance}"
    using bruteForcePairs_mem[of _ _ ps] by (auto simp: close_def)
  ultimately show ?thesis using d s by simp
qed

theorem spatial_hash_equals_brute_force_witness:
  "in_bounds 800 600 sample_particles \<and>
   map line_pair (connectParticles 800 600 sample_particles) = [(0, 1)] \<and>
   bruteForcePairs sample_particles = [(0, 1)]"
proof -
  have "mset (map line_pair (connectParticles 800 600 sample_particles)) = {#(0, 1)#}"
    using spatial_hash_equals_brute_force[OF sample_in_bounds] sample_brute_force by simp
  then have "map line_pair (connectParticles 800 600 sample_particles) = [(0, 1)]"
    by (metis mset_single_iff_right mset.simps(1) mset_zero_iff_right)
  then show ?thesis
    using sample_in_bounds sample_brute_force by simp
qed

lemma close_iff_dist:
  "close ps a b \<longleftrightarrow> sqrt (distSq (ps ! a) (ps ! b)) < connectionDistance"
proof -
  have "sqrt (connectionDistance * connectionDistance) = connectionDistance"
    by (simp add: connectionDistance_def)
  then show ?thesis
    unfolding close_def using real_sqrt_less_iff[of "distSq (ps ! a) (ps ! b)"
        "connectionDistance * connectionDistance"] by simp
qed

lemma distSq_sym: "distSq p q = distSq q p"
  by (simp add: distSq_def algebra_simps)

lemma length_filter_count:
  "length (filter (\<lambda>l. f l = p) xs) = count_list (map f xs) p"
  by (induction xs) auto

lemma connect_pair_count:
  assumes "in_bounds W H ps"
  shows "length (filter (\<lambda>l. line_pair l = p) (connectParticles W H ps))
     = (if p \<in> set (bruteForcePairs ps) then 1 else 0)"
proof -
  have "count (mset (map line_pair (connectParticles W H ps))) p
      = (if p \<in> set (map line_pair (connectParticles W H ps)) then 1 else 0)"
    by (rule distinct_count_atmost_1[THEN iffD1, rule_format, OF connect_pairs_distinct[OF assms]])
  then have "count_list (map line_pair (connectParticles W H ps)) p
      = (if p \<in> set (bruteForcePairs ps) then 1 else 0)"
    by (simp only: count_mset connect_pairs_set[OF assms])
  then show ?thesis
    by (simp only: length_filter_count)
qed

text \<open>
  C9. For particles on the canvas and two of them, \<open>i < j\<close>, at distance \<open>d\<close>: when
  \<open>d\<close> is below the connection distance exactly one line joins them and its opacity
  is \<open>1 - d / connectionDistance\<close>; when \<open>d\<close> is at least the connection distance no
  line joins them.
\<close>

theorem connection_opacity:
  assumes "in_bounds W H ps" "i < j" "j < length ps"
  shows "(sqrt (distSq (ps ! i) (ps ! j)) < connectionDistance \<longrightarrow>
      (\<exists>l. filter (\<lambda>l. line_pair l = (i, j)) (connectParticles W H ps) = [l] \<and>
           line_alpha l = 1 - sqrt (distSq (ps ! i) (ps ! j)) / connectionDistance)) \<and>
    (connectionDistance \<le> sqrt (distSq (ps ! i) (ps ! j)) \<longrightarrow>
      filter (\<lambda>l. line_pair l = (i, j)) (connectParticles W H ps) = [])"
proof (intro conjI impI)
  let ?f = "filter (\<lambda>l. line_pair l = (i, j)) (connectParticles W H ps)"
  note c = connect_pair_count[OF assms(1), of "(i, j)"]
  {
    assume "sqrt (distSq (ps ! i) (ps ! j)) < connectionDistance"
    then have "close ps i j" by (simp add: close_iff_dist)
    then have "length ?f = 1"
      using c assms(2,3) by (simp add: bruteForcePairs_mem)
    then obtain l where l: "?f = [l]"
      by (metis length_0_conv length_Suc_conv One_nat_def)
    then have "l \<in> set ?f" by simp
    then have m: "l \<in> set (connectParticles W H ps)" "line_pair l = (i, j)" by simp_all
    from connect_sound[OF assms(1) m(1)] obtain a b where
      ab: "forward ps a b" "l = mk_line ps a b" by blast
    have "(min a b, max a b) = (i, j)"
      using m(2) ab(2) by (simp add: line_pair_mk_line)
    then have "(a = i \<and> b = j) \<or> (a = j \<and> b = i)"
      by (auto simp: min_def max_def split: if_splits)
    then have "line_alpha l = 1 - sqrt (distSq (ps ! i) (ps ! j)) / connectionDistance"
      using ab(2) distSq_sym[of "ps ! i" "ps ! j"] by (auto simp: mk_line_def)
    then show "\<exists>l. ?f = [l] \<and>
        line_alpha l = 1 - sqrt (distSq (ps ! i) (ps ! j)) / connectionDistance"
      using l by blast
  }
  {
    assume "connectionDistance \<le> sqrt (distSq (ps ! i) (ps ! j))"
    then have "\<not> close ps i j" by (simp add: close_iff_dist)
    then have "length ?f = 0"
      using c by (simp add: bruteForcePairs_mem)
    then show "?f = []" by simp
  }
qed

theorem connection_opacity_witness:
  "in_bounds 800 600 sample_particles \<and> (0::nat) < 1 \<and> 1 < length sample_particles \<and>
   sqrt (distSq (sample_particles ! 0) (sample_particles ! 1)) = 50 \<and>
   (\<exists>l. filter (\<lambda>l. line_pair l = (0, 1)) (connectParticles 800 600 sample_particles) = [l] \<and>
        line_alpha l = 7 / 12) \<and>
   connectionDistance \<le> sqrt (distSq (sample_particles ! 0) (sample_particles ! 2)) \<and>
   filter (\<lambda>l. line_pair l = (0, 2)) (connectParticles 800 600 sample_particles) = []"
proof -
  have len: "length sample_particles = 3"
    by (simp add: sample_particles_def)
  have a: "\<exists>l. filter (\<lambda>l. line_pair l = (0, 1)) (connectParticles 800 600 sample_particles) = [l] \<and>
        line_alpha l = 7 / 12"
    using connection_opacity[OF sample_in_bounds, of 0 1] sample_distances(1) len
    by (simp add: connectionDistance_def)
  have b: "filter (\<lambda>l. line_pair l = (0, 2)) (connectParticles 800 600 sample_particles) = []"
    using connection_opacity[OF sample_in_bounds, of 0 2] sample_distances(2) len
    by simp
  show ?thesis
    using sample_in_bounds len sample_distances a b by simp
qed

lemma grid_push_mset:
  "mset (concat (map snd (grid_push k i g))) = add_mset i (mset (concat (map snd g)))"
  by (induction k i g rule: grid_push.induct) simp_all

lemma build_grid_mset: "mset (concat (map snd (build_grid W ps))) = mset [0..<length ps]"
proof -
  have "mset (concat (map snd (fold (\<lambda>idx g. grid_push (cell_key W (ps ! idx)) idx g) [0..<m] [])))
      = mset [0..<m]" for m
    by (induction m) (simp_all add: grid_push_mset)
  then show ?thesis by (simp only: build_grid_eq)
qed

lemma build_grid_cell_of:
  assumes "idx < length ps"
  shows "\<exists>!e. e \<in> set (build_grid W ps) \<and> idx \<in> set (snd e)"
proof (rule ex1I)
  let ?k = "cell_key W (ps ! idx)"
  let ?e = "(?k, cell_members W ps ?k (length ps))"
  have m: "idx \<in> set (cell_members W ps ?k (length ps))"
    using assms by (simp add: cell_members_set)
  then have "cell_members W ps ?k (length ps) \<noteq> []" by auto
  then show "?e \<in> set (build_grid W ps) \<and> idx \<in> set (snd ?e)"
    using m by (simp add: build_grid_entry)
  fix e assume e: "e \<in> set (build_grid W ps) \<and> idx \<in> set (snd e)"
  then have s: "snd e = cell_members W ps (fst e) (length ps)"
    using build_grid_entry[of "fst e" "snd e" W ps] by simp
  then have "fst e = ?k" using e by (simp add: cell_members_set)
  then show "e = ?e" using s by (metis prod.collapse)
qed

text \<open>
  C6. The grid built for particles on the canvas: no key has two cells; the cells
  together hold every index below the number of particles exactly once, so every
  particle is in exactly one cell; the key of that cell is
  \<open>floor (y / cellSize) * cols + floor (x / cellSize)\<close>; two particles have the same key
  only if they have the same row and the same column, and in general two cells with
  columns in \<open>[0, cols)\<close> that differ have different keys.
\<close>

theorem grid_assigns_one_cell:
  assumes "in_bounds W H ps"
  shows "distinct (map fst (build_grid W ps)) \<and>
     mset (concat (map snd (build_grid W ps))) = mset [0..<length ps] \<and>
     (\<forall>idx < length ps. \<exists>!e. e \<in> set (build_grid W ps) \<and> idx \<in> set (snd e)) \<and>
     (\<forall>e \<in> set (build_grid W ps). \<forall>idx \<in> set (snd e). idx < length ps \<and>
         fst e = \<lfloor>y (ps ! idx) / cellSize\<rfloor> * grid_cols W + \<lfloor>x (ps ! idx) / cellSize\<rfloor>) \<and>
     (\<forall>i < length ps. \<forall>j < length ps.
         cell_key W (ps ! i) = cell_key W (ps ! j) \<longleftrightarrow>
         cell_row (ps ! i) = cell_row (ps ! j) \<and> cell_col (ps ! i) = cell_col (ps ! j)) \<and>
     (\<forall>r c r' c'. 0 \<le> c \<and> c < grid_cols W \<and> 0 \<le> c' \<and> c' < grid_cols W \<and>
         r * grid_cols W + c = r' * grid_cols W + c' \<longrightarrow> r = r' \<and> c = c')"
proof (intro conjI allI impI ballI)
  show "distinct (map fst (build_grid W ps))" by (rule build_grid_distinct)
  show "mset (concat (map snd (build_grid W ps))) = mset [0..<length ps]"
    by (rule build_grid_mset)
next
  fix idx assume "idx < length ps"
  then show "\<exists>!e. e \<in> set (build_grid W ps) \<and> idx \<in> set (snd e)"
    by (rule build_grid_cell_of)
next
  fix e idx assume e: "e \<in> set (build_grid W ps)" and i: "idx \<in> set (snd e)"
  from e have "snd e = cell_members W ps (fst e) (length ps)"
    using build_grid_entry[of "fst e" "snd e" W ps] by simp
  then have m: "idx < length ps" "cell_key W (ps ! idx) = fst e"
    using i by (simp_all add: cell_members_set)
  show "idx < length ps" by (rule m(1))
  show "fst e = \<lfloor>y (ps ! idx) / cellSize\<rfloor> * grid_cols W + \<lfloor>x (ps ! idx) / cellSize\<rfloor>"
    using m(2) by (simp add: cell_key_def cell_row_def cell_col_def)
next
  fix i j assume i: "i < length ps" and j: "j < length ps"
  note bi = cell_bounds(1,2)[OF assms nth_mem[OF i]]
  note bj = cell_bounds(1,2)[OF assms nth_mem[OF j]]
  show "cell_key W (ps ! i) = cell_key W (ps ! j) \<longleftrightarrow>
         cell_row (ps ! i) = cell_row (ps ! j) \<and> cell_col (ps ! i) = cell_col (ps ! j)"
    using key_inj[OF bi bj, of "cell_row (ps ! i)" "cell_row (ps ! j)"]
    unfolding cell_key_def by auto
next
  fix r c r' c' :: int
  assume a: "0 \<le> c \<and> c < grid_cols W \<and> 0 \<le> c' \<and> c' < grid_cols W \<and>
         r * grid_cols W + c = r' * grid_cols W + c'"
  then show "r = r'" "c = c'"
    using key_inj[of c "grid_cols W" c' r r'] by auto
qed

theorem grid_assigns_one_cell_witness:
  "in_bounds 800 600 sample_particles \<and>
   build_grid 800 sample_particles = [(0, [0]), (1, [1]), (37, [2])] \<and>
   distinct (map fst (build_grid 800 sample_particles)) \<and>
   mset (concat (map snd (build_grid 800 sample_particles))) = mset [0..<length sample_particles] \<and>
   cell_key 800 (sample_particles ! 2) = 4 * grid_cols 800 + 5"
proof -
  note t = grid_assigns_one_cell[OF sample_in_bounds]
  note d = t[THEN conjunct1] and m = t[THEN conjunct2, THEN conjunct1]
  have k: "cell_key 800 (sample_particles ! 2) = 4 * grid_cols 800 + 5"
    by (simp add: cell_key_def sample_particles_def still_particle_def cell_col_def cell_row_def
        cellSize_def connectionDistance_def)
  show ?thesis
    using sample_in_bounds sample_grid d m k by (intro conjI) assumption+
qed

end
